theory Spec2Isabelle
  imports Main "HOL-Library.Word" "HOL-Library.AList" "HOL-Library.Sublist"
begin

section \<open>Memory: nodes behind shared pointers\<close>

text \<open>
  The nodes of \<^verbatim>\<open>src/trie/src.hpp\<close> live behind \<^verbatim>\<open>std::shared_ptr\<close>; two tries are
  compared by the identity of their roots, so the model keeps an explicit store. The store
  is a list of nodes, an address is an index into it, and an allocation
  (\<^verbatim>\<open>make_shared\<close>, \<^verbatim>\<open>make_unique\<close>, \<^verbatim>\<open>Clone\<close>) appends a cell: its address is the length
  of the store before the allocation, hence different from every address in use.
  Reference counts and deallocation are not modelled: a cell that is no longer referenced
  stays in the store.  A \<^verbatim>\<open>shared_ptr\<close> is an \<open>addr option\<close>, \<open>None\<close> being \<^verbatim>\<open>nullptr\<close>.
\<close>

type_synonym addr = nat

text \<open>
  \<^verbatim>\<open>class TrieNode\<close> with its subclass \<^verbatim>\<open>TrieNodeWithValue<T>\<close>.  The map
  \<^verbatim>\<open>children_\<close> is an association list from characters to addresses (the code never stores a
  null child); \<^verbatim>\<open>is_value_node_\<close> is the field of the base class; \<open>node_value\<close> records the
  dynamic type of the object: \<open>None\<close> for a plain \<^verbatim>\<open>TrieNode\<close>, \<open>Some (T, v)\<close> for a
  \<^verbatim>\<open>TrieNodeWithValue<T>\<close> whose \<^verbatim>\<open>value_\<close> points to \<open>v\<close>.  The pointed-to value is never
  written after its creation, so it is stored in the node itself.
\<close>

record ('t, 'v) TrieNode =
  children :: "(char \<times> addr) list"
  is_value_node :: bool
  node_value :: "('t \<times> 'v) option"

type_synonym ('t, 'v) heap = "('t, 'v) TrieNode list"

text \<open>\<^verbatim>\<open>TrieNode()\<close> and \<^verbatim>\<open>TrieNode(children)\<close>: \<^verbatim>\<open>is_value_node_\<close> keeps its default \<^verbatim>\<open>false\<close>.\<close>

definition new_TrieNode :: "(char \<times> addr) list \<Rightarrow> ('t, 'v) TrieNode" where
  "new_TrieNode cs = \<lparr>children = cs, is_value_node = False, node_value = None\<rparr>"

text \<open>\<^verbatim>\<open>TrieNodeWithValue<T>(children, value)\<close>: the constructor sets \<^verbatim>\<open>is_value_node_\<close>.\<close>

definition new_TrieNodeWithValue :: "'t \<Rightarrow> (char \<times> addr) list \<Rightarrow> 'v \<Rightarrow> ('t, 'v) TrieNode" where
  "new_TrieNodeWithValue T cs v =
     \<lparr>children = cs, is_value_node = True, node_value = Some (T, v)\<rparr>"

text \<open>
  The virtual \<^verbatim>\<open>Clone\<close>: dispatch on the dynamic type.  The children map is copied (the
  children themselves are shared), the value pointer is shared.
\<close>

definition Clone :: "('t, 'v) TrieNode \<Rightarrow> ('t, 'v) TrieNode" where
  "Clone n = (case node_value n of
                None \<Rightarrow> new_TrieNode (children n)
              | Some (T, v) \<Rightarrow> new_TrieNodeWithValue T (children n) v)"

section \<open>The persistent trie\<close>

text \<open>\<^verbatim>\<open>class Trie\<close>: one field, the root pointer; \<^verbatim>\<open>Trie()\<close> is \<open>Trie None\<close>.\<close>

datatype Trie = Trie (root: "addr option")

text \<open>\<^verbatim>\<open>operator==\<close> compares the root pointers.\<close>

definition Trie_eq :: "Trie \<Rightarrow> Trie \<Rightarrow> bool" where
  "Trie_eq a b = (root a = root b)"

text \<open>
  \<^verbatim>\<open>Get\<close> dereferences the result of a failed \<^verbatim>\<open>dynamic_pointer_cast\<close>; this is the one
  place where the code can leave defined behaviour.
\<close>

datatype error = NullDereference

text \<open>The \<^verbatim>\<open>for (char c : key)\<close> loop of \<^verbatim>\<open>Get\<close>: \<open>None\<close> is the early \<^verbatim>\<open>return nullptr\<close>.\<close>

fun Get_loop :: "('t, 'v) heap \<Rightarrow> addr \<Rightarrow> string \<Rightarrow> addr option" where
  "Get_loop h node [] = Some node"
| "Get_loop h node (c # key) =
     (case map_of (children (h ! node)) c of
        None \<Rightarrow> None
      | Some child \<Rightarrow> Get_loop h child key)"

text \<open>
  The end of \<^verbatim>\<open>Get\<close>, at the node the loop stopped on.  \<open>Inr None\<close> is \<^verbatim>\<open>nullptr\<close>,
  \<open>Inr (Some v)\<close> a pointer to \<open>v\<close>.  When the node is a value node of another type the
  cast yields a null \<^verbatim>\<open>value_node\<close>, and \<^verbatim>\<open>value_node->value_\<close> dereferences it.
\<close>

definition Get_value :: "('t, 'v) TrieNode \<Rightarrow> 't \<Rightarrow> error + 'v option" where
  "Get_value n T =
     (if is_value_node n then
        (case node_value n of
           Some (U, v) \<Rightarrow> if U = T then Inr (Some v) else Inl NullDereference
         | None \<Rightarrow> Inl NullDereference)
      else Inr None)"

definition Get_from :: "('t, 'v) heap \<Rightarrow> addr \<Rightarrow> string \<Rightarrow> 't \<Rightarrow> error + 'v option" where
  "Get_from h node key T =
     (case Get_loop h node key of
        None \<Rightarrow> Inr None
      | Some n \<Rightarrow> Get_value (h ! n) T)"

text \<open>\<^verbatim>\<open>Trie::Get<T>(key)\<close>.\<close>

definition Trie_Get :: "('t, 'v) heap \<Rightarrow> Trie \<Rightarrow> string \<Rightarrow> 't \<Rightarrow> error + 'v option" where
  "Trie_Get h t key T =
     (case root t of
        None \<Rightarrow> Inr None
      | Some node \<Rightarrow> Get_from h node key T)"

text \<open>
  The loop of \<^verbatim>\<open>Put\<close>, from index \<open>i\<close> on: \<open>c # key\<close> is the rest of the key, and
  \<open>key = []\<close> is the test \<^verbatim>\<open>i == key.size() - 1\<close>.  Each iteration allocates the node of the
  next level (address \<open>length h\<close>) and stores it in the child slot of \<open>node\<close>, which is a
  node this call has allocated itself.  In the found-and-last case the children of the old
  child are copied: \<^verbatim>\<open>std::move\<close> of a \<^verbatim>\<open>const\<close> map selects the copy constructor.
\<close>

fun Put_loop :: "('t, 'v) heap \<Rightarrow> addr \<Rightarrow> string \<Rightarrow> 't \<Rightarrow> 'v \<Rightarrow> ('t, 'v) heap" where
  "Put_loop h node [] T v = h"
| "Put_loop h node (c # key) T v =
     (let cs = children (h ! node);
          new_child =
            (case map_of cs c of
               None \<Rightarrow>
                 if key = [] then new_TrieNodeWithValue T [] v
                 else new_TrieNode []
             | Some child \<Rightarrow>
                 if key = [] then new_TrieNodeWithValue T (children (h ! child)) v
                 else Clone (h ! child));
          a = length h;
          h1 = h @ [new_child];
          h2 = h1[node := (h1 ! node)\<lparr>children := AList.update c a cs\<rparr>]
      in Put_loop h2 a key T v)"

text \<open>\<^verbatim>\<open>Trie::Put<T>(key, value)\<close>: the new store and the new trie.\<close>

definition Trie_Put :: "('t, 'v) heap \<Rightarrow> Trie \<Rightarrow> string \<Rightarrow> 't \<Rightarrow> 'v \<Rightarrow> ('t, 'v) heap \<times> Trie" where
  "Trie_Put h t key T v =
     (let new_root = length h;
          h1 = h @ [case root t of Some r \<Rightarrow> Clone (h ! r) | None \<Rightarrow> new_TrieNode []]
      in (Put_loop h1 new_root key T v, Trie (Some new_root)))"

text \<open>
  The recursive \<^verbatim>\<open>Remove(node, pos, key)\<close>.  The string argument is the rest of the key from
  \<open>pos\<close> on, so \<open>[]\<close> is \<^verbatim>\<open>pos == key.size()\<close>; \<open>pos\<close> itself is only compared with 0.
  The result is the new store and the returned pointer.  \<open>node\<close> is always a clone made by
  the caller; the code updates its child slot in place, and at the end of the key moves its
  children into the replacement node (the moved-from map is left empty).
\<close>

fun Remove_node :: "('t, 'v) heap \<Rightarrow> addr \<Rightarrow> nat \<Rightarrow> string \<Rightarrow> ('t, 'v) heap \<times> addr option" where
  "Remove_node h node pos [] =
     (if \<not> is_value_node (h ! node) then (h, Some node)
      else if pos \<noteq> 0 \<and> children (h ! node) = [] then (h, None)
      else
        (let new_node = length h;
             h1 = h @ [new_TrieNode (children (h ! node))];
             h2 = h1[node := (h1 ! node)\<lparr>children := []\<rparr>]
         in (h2, Some new_node)))"
| "Remove_node h node pos (c # key) =
     (case map_of (children (h ! node)) c of
        None \<Rightarrow> (h, Some node)
      | Some child \<Rightarrow>
          (let a = length h;
               h1 = h @ [Clone (h ! child)];
               (h2, new_child) = Remove_node h1 a (pos + 1) key;
               cs =
                 (case new_child of
                    None \<Rightarrow> AList.delete c (children (h2 ! node))
                  | Some b \<Rightarrow> AList.update c b (children (h2 ! node)));
               h3 = h2[node := (h2 ! node)\<lparr>children := cs\<rparr>]
           in if pos \<noteq> 0 \<and> cs = [] \<and> \<not> is_value_node (h3 ! node)
              then (h3, None)
              else (h3, Some node)))"

text \<open>\<^verbatim>\<open>Trie::Remove(key)\<close>.\<close>

definition Trie_Remove :: "('t, 'v) heap \<Rightarrow> Trie \<Rightarrow> string \<Rightarrow> ('t, 'v) heap \<times> Trie" where
  "Trie_Remove h t key =
     (let new_root = length h;
          h1 = h @ [case root t of Some r \<Rightarrow> Clone (h ! r) | None \<Rightarrow> new_TrieNode []];
          (h2, new_node) = Remove_node h1 new_root 0 key
      in (h2, Trie new_node))"

section \<open>The versioned store\<close>

text \<open>
  \<^verbatim>\<open>class TrieStore\<close>: the vector \<^verbatim>\<open>snapshots_\<close>, together with the memory its tries point
  into.  \<^verbatim>\<open>size_t\<close> is taken to be 64 bits wide.  The two mutexes are not modelled: every
  operation below is one method call running alone.
\<close>

type_synonym size_t = "64 word"

record ('t, 'v) TrieStore =
  heap :: "('t, 'v) heap"
  snapshots :: "Trie list"

text \<open>\<^verbatim>\<open>snapshots_ { 1 }\<close>: one default-constructed trie.\<close>

definition TrieStore_init :: "('t, 'v) TrieStore" where
  "TrieStore_init = \<lparr>heap = [], snapshots = [Trie None]\<rparr>"

definition get_version :: "('t, 'v) TrieStore \<Rightarrow> size_t" where
  "get_version s = of_nat (length (snapshots s)) - 1"

text \<open>\<^verbatim>\<open>ValueGuard<T>\<close>: the trie and the value read from it.\<close>

datatype 'v ValueGuard = ValueGuard (guard_root: Trie) (guard_value: 'v)

text \<open>
  \<^verbatim>\<open>TrieStore::Get<T>(key, version)\<close>; the default argument \<^verbatim>\<open>-1\<close> is the word of all ones.
\<close>

definition TrieStore_Get ::
  "('t, 'v) TrieStore \<Rightarrow> string \<Rightarrow> 't \<Rightarrow> size_t \<Rightarrow> error + 'v ValueGuard option" where
  "TrieStore_Get s key T version0 =
     (let version = (if version0 = - 1 then get_version s else version0)
      in if version \<ge> of_nat (length (snapshots s)) then Inr None
         else
           (let trie = snapshots s ! unat version
            in case Trie_Get (heap s) trie key T of
                 Inl e \<Rightarrow> Inl e
               | Inr None \<Rightarrow> Inr None
               | Inr (Some v) \<Rightarrow> Inr (Some (ValueGuard trie v))))"

text \<open>\<^verbatim>\<open>TrieStore::Put<T>(key, value)\<close>: the new state and the returned version.\<close>

definition TrieStore_Put ::
  "('t, 'v) TrieStore \<Rightarrow> string \<Rightarrow> 't \<Rightarrow> 'v \<Rightarrow> ('t, 'v) TrieStore \<times> size_t" where
  "TrieStore_Put s key T v =
     (let (h, new_trie) = Trie_Put (heap s) (last (snapshots s)) key T v;
          s1 = \<lparr>heap = h, snapshots = snapshots s @ [new_trie]\<rparr>
      in (s1, get_version s1))"

text \<open>\<^verbatim>\<open>TrieStore::Remove(key)\<close>.\<close>

definition TrieStore_Remove ::
  "('t, 'v) TrieStore \<Rightarrow> string \<Rightarrow> ('t, 'v) TrieStore \<times> size_t" where
  "TrieStore_Remove s key =
     (let (h, new_trie) = Trie_Remove (heap s) (last (snapshots s)) key;
          s0 = \<lparr>heap = h, snapshots = snapshots s\<rparr>
      in if Trie_eq new_trie (last (snapshots s)) then (s0, get_version s0)
         else
           (let s1 = \<lparr>heap = h, snapshots = snapshots s @ [new_trie]\<rparr>
            in (s1, get_version s1)))"

section \<open>Well-formed stores and observations\<close>

text \<open>
  A \<^verbatim>\<open>TrieNode\<close> object always has \<^verbatim>\<open>is_value_node_\<close> false and a
  \<^verbatim>\<open>TrieNodeWithValue\<close> object always has it true: only the constructors write the field.
\<close>

definition node_inv :: "('t, 'v) TrieNode \<Rightarrow> bool" where
  "node_inv n = (is_value_node n = (node_value n \<noteq> None))"

text \<open>
  A \<^verbatim>\<open>shared_ptr\<close> never dangles: every child pointer stored in a cell is the address of
  a cell, and every cell is an object one of the constructors has built.
\<close>

definition heap_wf :: "('t, 'v) heap \<Rightarrow> bool" where
  "heap_wf h = list_all (\<lambda>n. list_all (\<lambda>(c, b). b < length h) (children n) \<and> node_inv n) h"

definition trie_wf :: "('t, 'v) heap \<Rightarrow> Trie \<Rightarrow> bool" where
  "trie_wf h t = (heap_wf h \<and> (case root t of None \<Rightarrow> True | Some r \<Rightarrow> r < length h))"

text \<open>The node a trie holds at the end of the path \<open>p\<close>, found the way \<^verbatim>\<open>Get\<close> walks.\<close>

definition node_at :: "('t, 'v) heap \<Rightarrow> Trie \<Rightarrow> string \<Rightarrow> addr option" where
  "node_at h t p = (case root t of None \<Rightarrow> None | Some r \<Rightarrow> Get_loop h r p)"

text \<open>
  The situation inside \<^verbatim>\<open>Put\<close> and \<^verbatim>\<open>Remove\<close>: the cells below \<open>n0\<close> are the store the
  operation started from, and \<open>node\<close> is a cell allocated since, whose children are still
  the ones it was cloned with.
\<close>

definition cow_pre :: "nat \<Rightarrow> ('t, 'v) heap \<Rightarrow> addr \<Rightarrow> bool" where
  "cow_pre n0 h node =
     (n0 \<le> node \<and> node < length h \<and>
      (\<forall>a<n0. snd ` set (children (h ! a)) \<subseteq> {..<n0} \<and> node_inv (h ! a)) \<and>
      snd ` set (children (h ! node)) \<subseteq> {..<n0})"

text \<open>
  One iteration of the loop of \<^verbatim>\<open>Put\<close>, in two named pieces: the node allocated for the
  next level, and the store after the allocation and the update of the child slot.
\<close>

definition Put_child :: "('t, 'v) heap \<Rightarrow> addr \<Rightarrow> char \<Rightarrow> string \<Rightarrow> 't \<Rightarrow> 'v \<Rightarrow> ('t, 'v) TrieNode" where
  "Put_child h node c key T v =
     (case map_of (children (h ! node)) c of
        None \<Rightarrow> if key = [] then new_TrieNodeWithValue T [] v else new_TrieNode []
      | Some child \<Rightarrow>
          if key = [] then new_TrieNodeWithValue T (children (h ! child)) v
          else Clone (h ! child))"

definition Put_step :: "('t, 'v) heap \<Rightarrow> addr \<Rightarrow> char \<Rightarrow> string \<Rightarrow> 't \<Rightarrow> 'v \<Rightarrow> ('t, 'v) heap" where
  "Put_step h node c key T v =
     (h @ [Put_child h node c key T v])
       [node := (h ! node)\<lparr>children := AList.update c (length h) (children (h ! node))\<rparr>]"

text \<open>The node both \<^verbatim>\<open>Put\<close> and \<^verbatim>\<open>Remove\<close> allocate first.\<close>

definition root_clone :: "('t, 'v) heap \<Rightarrow> Trie \<Rightarrow> ('t, 'v) TrieNode" where
  "root_clone h t = (case root t of Some r \<Rightarrow> Clone (h ! r) | None \<Rightarrow> new_TrieNode [])"

text \<open>A node that \<^verbatim>\<open>Remove\<close> does not keep below the root: no child and no value.\<close>

definition dead :: "('t, 'v) TrieNode \<Rightarrow> bool" where
  "dead n = (children n = [] \<and> \<not> is_value_node n)"

text \<open>The children of \<open>node\<close> after the recursive call of \<^verbatim>\<open>Remove\<close>: erase or replace.\<close>

definition Remove_children :: "char \<Rightarrow> addr option \<Rightarrow> (char \<times> addr) list \<Rightarrow> (char \<times> addr) list" where
  "Remove_children c new_child cs =
     (case new_child of None \<Rightarrow> AList.delete c cs | Some b \<Rightarrow> AList.update c b cs)"

text \<open>
  A store to run the theorems on: \<^verbatim>\<open>Trie().Put<int>("ab", 1).Put<int>("ac", 2)\<close>.  It has
  six cells; the trie's root is cell 3, \<^verbatim>\<open>"a"\<close> is cell 4, \<^verbatim>\<open>"ab"\<close> is cell 2 (shared
  with the first trie) and \<^verbatim>\<open>"ac"\<close> is cell 5.
\<close>

definition example_store :: "(string, int) heap \<times> Trie" where
  "example_store =
     (let (h1, t1) = Trie_Put [] (Trie None) ''ab'' ''int'' 1
      in Trie_Put h1 t1 ''ac'' ''int'' 2)"

text \<open>A node whose only edge, if it has any, is the one labelled \<open>c\<close>.\<close>

definition only_child :: "char \<Rightarrow> ('t, 'v) TrieNode \<Rightarrow> bool" where
  "only_child c n = list_all (\<lambda>(c', b). c' = c) (children n)"

text \<open>
  What decides whether \<^verbatim>\<open>Remove\<close> drops the node \<open>n\<close> when the key below it is \<open>key\<close>:
  the node at the end of the key has no children, and every node before it has no value and
  no edge but the one along the key.
\<close>

fun prunable :: "('t, 'v) heap \<Rightarrow> addr \<Rightarrow> string \<Rightarrow> bool" where
  "prunable h n [] = (children (h ! n) = [])"
| "prunable h n (c # key) =
     (\<not> is_value_node (h ! n) \<and> only_child c (h ! n) \<and>
      (case map_of (children (h ! n)) c of None \<Rightarrow> False | Some b \<Rightarrow> prunable h b key))"

text \<open>
  A second store: \<^verbatim>\<open>Trie().Put<int>("abc", 1).Put<int>("ab", 2)\<close>, in which \<^verbatim>\<open>"ab"\<close> is a
  value node (cell 6) with the child \<^verbatim>\<open>'c'\<close>, and what \<^verbatim>\<open>Remove("ab")\<close> makes of it.
\<close>

definition abc_store :: "(string, int) heap \<times> Trie" where
  "abc_store =
     (let (h0, t0) = Trie_Put [] (Trie None) ''abc'' ''int'' 1
      in Trie_Put h0 t0 ''ab'' ''int'' 2)"

definition abc_removed :: "(string, int) heap \<times> Trie" where
  "abc_removed = Trie_Remove (fst abc_store) (snd abc_store) ''ab''"

section \<open>Nodes, walks and stores that agree\<close>

lemma map_of_child: "map_of cs c = Some b \<Longrightarrow> b \<in> snd ` set cs"
  by (metis map_of_SomeD image_eqI snd_conv)

lemma update_addrs: "snd ` set (AList.update c a cs) \<subseteq> insert a (snd ` set cs)"
  by (induction cs) auto

lemma delete_addrs: "snd ` set (AList.delete c cs) \<subseteq> snd ` set cs"
  by (auto simp: AList.delete_eq)

lemma node_inv_new [simp]: "node_inv (new_TrieNode cs)" "node_inv (new_TrieNodeWithValue T cs v)"
  by (simp_all add: node_inv_def new_TrieNode_def new_TrieNodeWithValue_def)

lemma children_new [simp]:
  "children (new_TrieNode cs) = cs" "children (new_TrieNodeWithValue T cs v) = cs"
  by (simp_all add: new_TrieNode_def new_TrieNodeWithValue_def)

lemma children_Clone [simp]: "children (Clone n) = children n"
  by (simp add: Clone_def split: option.split prod.split)

lemma node_inv_Clone [simp]: "node_inv (Clone n)"
  by (simp add: Clone_def split: option.split prod.split)

lemma Clone_id: "node_inv n \<Longrightarrow> Clone n = n"
  by (cases n) (auto simp: Clone_def node_inv_def new_TrieNode_def new_TrieNodeWithValue_def
      split: option.split)

lemma Get_value_children [simp]: "Get_value (n\<lparr>children := cs\<rparr>) T = Get_value n T"
  by (simp add: Get_value_def)

lemma Get_value_new_TrieNode [simp]: "Get_value (new_TrieNode cs) T = Inr None"
  by (simp add: Get_value_def new_TrieNode_def)

lemma Get_value_new_TrieNodeWithValue [simp]:
  "Get_value (new_TrieNodeWithValue T cs v) T = Inr (Some v)"
  by (simp add: Get_value_def new_TrieNodeWithValue_def)

lemma heap_wf_iff:
  "heap_wf h \<longleftrightarrow> (\<forall>a<length h. snd ` set (children (h ! a)) \<subseteq> {..<length h} \<and> node_inv (h ! a))"
proof -
  have "list_all (\<lambda>(c, b). b < n) cs \<longleftrightarrow> snd ` set cs \<subseteq> {..<n}" for cs :: "(char \<times> addr) list" and n
    by (induction cs) auto
  then show ?thesis by (simp add: heap_wf_def list_all_length)
qed

text \<open>
  Two stores that agree on a set of addresses closed under the child pointers give the
  same walk from any address of the set, and the walk stays in the set.
\<close>

lemma Get_loop_agree:
  assumes "\<forall>a\<in>S. h' ! a = h ! a"
    and "\<forall>a\<in>S. snd ` set (children (h ! a)) \<subseteq> S"
    and "node \<in> S"
  shows "Get_loop h' node key = Get_loop h node key \<and>
         (\<forall>m. Get_loop h node key = Some m \<longrightarrow> m \<in> S)"
  using assms(3)
proof (induction key arbitrary: node)
  case Nil
  then show ?case by simp
next
  case (Cons c key)
  have same: "h' ! node = h ! node" using assms(1) Cons.prems by simp
  show ?case
  proof (cases "map_of (children (h ! node)) c")
    case None
    then show ?thesis using same by simp
  next
    case (Some b)
    then have "b \<in> S" using assms(2) Cons.prems map_of_child by fastforce
    then show ?thesis using Cons.IH [of b] Some same by simp
  qed
qed

text \<open>
  A cell with the children of an old cell \<open>b\<close> behaves like \<open>b\<close> on every non-empty key;
  with the value of \<open>b\<close> as well, on every key.
\<close>

lemma Get_from_copy:
  assumes agree: "\<forall>x<n0. h' ! x = h ! x"
    and closed: "\<forall>x<n0. snd ` set (children (h ! x)) \<subseteq> {..<n0}"
    and b: "b < n0"
    and cs: "children (h' ! a) = children (h ! b)"
  shows "p \<noteq> [] \<Longrightarrow> Get_loop h' a p = Get_loop h b p"
    and "Get_value (h' ! a) U = Get_value (h ! b) U \<Longrightarrow> Get_from h' a p U = Get_from h b p U"
    and "p \<noteq> [] \<Longrightarrow> Get_loop h b p = Some m \<Longrightarrow> m < n0 \<and> h' ! m = h ! m"
proof -
  have ag: "Get_loop h' x q = Get_loop h x q \<and> (\<forall>m. Get_loop h x q = Some m \<longrightarrow> m < n0)"
    if "x < n0" for x q
    using Get_loop_agree [of "{..<n0}" h' h x q] agree closed that by auto
  have step: "Get_loop h' a (c # q) = Get_loop h b (c # q) \<and>
      (\<forall>m. Get_loop h b (c # q) = Some m \<longrightarrow> m < n0)" for c q
  proof (cases "map_of (children (h ! b)) c")
    case None
    then show ?thesis using cs by simp
  next
    case (Some e)
    then have "e < n0" using closed b map_of_child by fastforce
    then show ?thesis using Some cs ag [of e q] by simp
  qed
  show l: "p \<noteq> [] \<Longrightarrow> Get_loop h' a p = Get_loop h b p"
    using step by (cases p) auto
  show m: "p \<noteq> [] \<Longrightarrow> Get_loop h b p = Some m \<Longrightarrow> m < n0 \<and> h' ! m = h ! m"
    using step agree by (cases p) auto
  show "Get_from h' a p U = Get_from h b p U" if v: "Get_value (h' ! a) U = Get_value (h ! b) U"
  proof (cases p)
    case Nil
    then show ?thesis using v by (simp add: Get_from_def)
  next
    case (Cons c q)
    then show ?thesis using step [of c q] agree
      by (auto simp: Get_from_def split: option.split)
  qed
qed

section \<open>Put: copy on write along the path\<close>

lemma Put_loop_length: "length (Put_loop h node key T v) = length h + length key"
  by (induction key arbitrary: h node) (simp_all add: Let_def)

text \<open>
  The loop writes the child slot of \<open>node\<close> and the cells it allocates, nothing else.
\<close>

lemma Put_loop_other:
  "a < length h \<Longrightarrow> a \<noteq> node \<Longrightarrow> Put_loop h node key T v ! a = h ! a"
proof (induction key arbitrary: h node)
  case Nil
  then show ?case by simp
next
  case (Cons c key)
  then show ?case by (simp add: Let_def nth_append)
qed

lemma Put_loop_node:
  "node < length h \<Longrightarrow>
   Put_loop h node (c # key) T v ! node =
     (h ! node)\<lparr>children := AList.update c (length h) (children (h ! node))\<rparr>"
  by (simp add: Let_def Put_loop_other nth_append)

lemma cow_pre_old:
  assumes "cow_pre n0 h node"
  shows "\<forall>x<n0. snd ` set (children (h ! x)) \<subseteq> {..<n0}"
    and "\<forall>x<n0. node_inv (h ! x)"
    and "n0 \<le> node" and "node < length h"
    and "map_of (children (h ! node)) c = Some b \<Longrightarrow> b < n0"
  using assms map_of_child [of "children (h ! node)" c b] by (auto simp: cow_pre_def)

lemma Put_loop_Cons:
  "node < length h \<Longrightarrow>
   Put_loop h node (c # key) T v = Put_loop (Put_step h node c key T v) (length h) key T v"
  by (simp add: Let_def Put_step_def Put_child_def nth_append)

lemma Put_step_facts:
  assumes "node < length h"
  shows "length (Put_step h node c key T v) = Suc (length h)"
    and "Put_step h node c key T v ! length h = Put_child h node c key T v"
    and "Put_step h node c key T v ! node =
           (h ! node)\<lparr>children := AList.update c (length h) (children (h ! node))\<rparr>"
    and "x < length h \<Longrightarrow> x \<noteq> node \<Longrightarrow> Put_step h node c key T v ! x = h ! x"
  using assms by (simp_all add: Put_step_def nth_append)

lemma children_Put_child:
  "children (Put_child h node c key T v) =
     (case map_of (children (h ! node)) c of None \<Rightarrow> [] | Some b \<Rightarrow> children (h ! b))"
  by (simp add: Put_child_def split: option.split)

lemma cow_pre_Put_step:
  assumes "cow_pre n0 h node"
  shows "cow_pre n0 (Put_step h node c key T v) (length h)"
proof -
  note o = cow_pre_old [OF assms]
  have len: "node < length h" by (rule o(4))
  have old: "Put_step h node c key T v ! x = h ! x" if "x < n0" for x
    using Put_step_facts(4) [OF len, of x] that o(3) len by simp
  have "snd ` set (children (Put_child h node c key T v)) \<subseteq> {..<n0}"
  proof (cases "map_of (children (h ! node)) c")
    case None
    then show ?thesis by (simp add: children_Put_child)
  next
    case (Some b)
    then have "b < n0" by (rule o(5))
    then show ?thesis using o(1) Some by (simp add: children_Put_child)
  qed
  then show ?thesis
    using o old len by (simp add: cow_pre_def Put_step_facts(1,2) [OF len])
qed

lemma Put_loop_old:
  "cow_pre n0 h node \<Longrightarrow> x < n0 \<Longrightarrow> Put_loop h node key T v ! x = h ! x"
  using Put_loop_other [of x h node key T v] by (simp add: cow_pre_def)

lemma cow_pre_walk_old:
  assumes "cow_pre n0 h node" and "\<forall>x<n0. h' ! x = h ! x" and "b < n0"
  shows "Get_loop h' b p = Get_loop h b p"
    and "Get_loop h b p = Some m \<Longrightarrow> m < n0"
  using Get_loop_agree [of "{..<n0}" h' h b p] assms cow_pre_old(1) [OF assms(1)]
  by auto

lemma cow_pre_walk_node:
  assumes "cow_pre n0 h node" and "p \<noteq> []" and "Get_loop h node p = Some m"
  shows "m < n0"
proof -
  obtain c q where p: "p = c # q" using assms(2) by (cases p) auto
  then obtain b where b: "map_of (children (h ! node)) c = Some b" "Get_loop h b q = Some m"
    using assms(3) by (auto split: option.splits)
  have "b < n0" using cow_pre_old(5) [OF assms(1) b(1)] .
  then show ?thesis using cow_pre_walk_old(2) [OF assms(1) _ \<open>b < n0\<close>, of h q m] b(2) by simp
qed

lemma Get_loop_Put_step_child:
  assumes "cow_pre n0 h node" and "p \<noteq> []"
  shows "Get_loop (Put_step h node c key T v) (length h) p =
           (case map_of (children (h ! node)) c of None \<Rightarrow> None | Some b \<Rightarrow> Get_loop h b p)"
proof -
  note o = cow_pre_old [OF assms(1)]
  let ?s = "Put_step h node c key T v"
  have sa: "?s ! length h = Put_child h node c key T v"
    by (rule Put_step_facts(2) [OF o(4)])
  have old: "\<forall>x<n0. ?s ! x = h ! x"
    using Put_step_facts(4) [OF o(4)] o(3,4) by simp
  show ?thesis
  proof (cases "map_of (children (h ! node)) c")
    case None
    then show ?thesis using assms(2) sa by (cases p) (simp_all add: children_Put_child)
  next
    case (Some b)
    have "Get_loop ?s (length h) p = Get_loop h b p"
      by (rule Get_from_copy(1) [OF old o(1) o(5) [OF Some] _ assms(2)])
         (simp add: sa children_Put_child Some)
    then show ?thesis using Some by simp
  qed
qed

lemma Get_from_Put_step_child:
  assumes "cow_pre n0 h node" and "key \<noteq> []"
  shows "Get_from (Put_step h node c key T v) (length h) p U =
           (case map_of (children (h ! node)) c of None \<Rightarrow> Inr None | Some b \<Rightarrow> Get_from h b p U)"
proof -
  note o = cow_pre_old [OF assms(1)]
  let ?s = "Put_step h node c key T v"
  have sa: "?s ! length h = Put_child h node c key T v"
    by (rule Put_step_facts(2) [OF o(4)])
  have old: "\<forall>x<n0. ?s ! x = h ! x"
    using Put_step_facts(4) [OF o(4)] o(3,4) by simp
  show ?thesis
  proof (cases "map_of (children (h ! node)) c")
    case None
    then have "?s ! length h = new_TrieNode []" using sa assms(2) by (simp add: Put_child_def)
    then show ?thesis using None by (cases p) (simp_all add: Get_from_def)
  next
    case (Some b)
    have b: "b < n0" by (rule o(5) [OF Some])
    have cl: "?s ! length h = Clone (h ! b)" using sa assms(2) Some by (simp add: Put_child_def)
    have "Clone (h ! b) = h ! b" using o(2) b by (simp add: Clone_id)
    then have "Get_from ?s (length h) p U = Get_from h b p U"
      using Get_from_copy(2) [OF old o(1) b, of "length h" U p] cl by simp
    then show ?thesis using Some by simp
  qed
qed

text \<open>
  Off the path of the key, the walk from the cloned node ends where it ended before the loop.
\<close>

lemma Put_loop_off_path:
  "cow_pre n0 h node \<Longrightarrow> \<not> prefix p key \<Longrightarrow>
   Get_loop (Put_loop h node key T v) node p = Get_loop h node p"
proof (induction key arbitrary: h node p)
  case Nil
  then show ?case by simp
next
  case (Cons c key)
  note o = cow_pre_old [OF Cons.prems(1)]
  let ?s = "Put_step h node c key T v"
  let ?r = "Put_loop ?s (length h) key T v"
  have r: "Put_loop h node (c # key) T v = ?r" by (rule Put_loop_Cons [OF o(4)])
  have pre: "cow_pre n0 ?s (length h)" by (rule cow_pre_Put_step [OF Cons.prems(1)])
  have "?r ! node = ?s ! node"
    using Put_loop_other [of node ?s "length h" key T v] o(4) Put_step_facts(1) [OF o(4), of c key T v]
    by simp
  then have cs: "children (?r ! node) = AList.update c (length h) (children (h ! node))"
    by (simp add: Put_step_facts(3) [OF o(4)])
  have old: "\<forall>x<n0. ?r ! x = h ! x"
    using Put_loop_old [OF Cons.prems(1), of _ "c # key" T v] r by simp
  obtain d q where p: "p = d # q" using Cons.prems(2) by (cases p) auto
  show ?case
  proof (cases "d = c")
    case True
    then have nq: "\<not> prefix q key" using Cons.prems(2) p by simp
    then have q: "q \<noteq> []" by auto
    have "Get_loop ?r node p = Get_loop ?r (length h) q"
      using p True cs by (simp add: update_conv')
    also have "\<dots> = Get_loop ?s (length h) q" by (rule Cons.IH [OF pre nq])
    also have "\<dots> = (case map_of (children (h ! node)) c of None \<Rightarrow> None | Some b \<Rightarrow> Get_loop h b q)"
      by (rule Get_loop_Put_step_child [OF Cons.prems(1) q])
    also have "\<dots> = Get_loop h node p" using p True by simp
    finally show ?thesis using r by simp
  next
    case False
    then have m: "map_of (children (?r ! node)) d = map_of (children (h ! node)) d"
      using cs by (simp add: update_conv')
    show ?thesis
    proof (cases "map_of (children (h ! node)) d")
      case None
      then show ?thesis using m p r by simp
    next
      case (Some b)
      have "Get_loop ?r b q = Get_loop h b q"
        by (rule cow_pre_walk_old(1) [OF Cons.prems(1) old o(5) [OF Some]])
      then show ?thesis using m p r Some by simp
    qed
  qed
qed

text \<open>
  Along the key, the walk meets the cells in the order of their allocation, and the last one
  is a value node of the type and value put.
\<close>

lemma Put_loop_on_path:
  "node < length h \<Longrightarrow> prefix p key \<Longrightarrow> p \<noteq> [] \<Longrightarrow>
   Get_loop (Put_loop h node key T v) node p = Some (length h + length p - 1)"
proof (induction key arbitrary: h node p)
  case Nil
  then show ?case by simp
next
  case (Cons c key)
  let ?s = "Put_step h node c key T v"
  let ?r = "Put_loop ?s (length h) key T v"
  have r: "Put_loop h node (c # key) T v = ?r" by (rule Put_loop_Cons [OF Cons.prems(1)])
  have len: "length ?s = Suc (length h)" by (rule Put_step_facts(1) [OF Cons.prems(1)])
  have "?r ! node = ?s ! node"
    using Put_loop_other [of node ?s "length h" key T v] Cons.prems(1) len by simp
  then have cs: "children (?r ! node) = AList.update c (length h) (children (h ! node))"
    by (simp add: Put_step_facts(3) [OF Cons.prems(1)])
  obtain q where p: "p = c # q" "prefix q key" using Cons.prems(2,3) by (cases p) auto
  have step: "Get_loop ?r node p = Get_loop ?r (length h) q"
    using p cs by (simp add: update_conv')
  show ?case
  proof (cases "q = []")
    case True
    then show ?thesis using step r p by simp
  next
    case False
    have "Get_loop ?r (length h) q = Some (length ?s + length q - 1)"
      by (rule Cons.IH [OF _ p(2) False]) (simp add: len)
    then show ?thesis using step r p len by simp
  qed
qed

lemma Put_loop_terminal:
  "node < length h \<Longrightarrow> key \<noteq> [] \<Longrightarrow>
   \<exists>cs. Put_loop h node key T v ! (length h + length key - 1) = new_TrieNodeWithValue T cs v"
proof (induction key arbitrary: h node)
  case Nil
  then show ?case by simp
next
  case (Cons c key)
  let ?s = "Put_step h node c key T v"
  have r: "Put_loop h node (c # key) T v = Put_loop ?s (length h) key T v"
    by (rule Put_loop_Cons [OF Cons.prems(1)])
  have len: "length ?s = Suc (length h)" by (rule Put_step_facts(1) [OF Cons.prems(1)])
  show ?case
  proof (cases "key = []")
    case True
    have "?s ! length h = Put_child h node c key T v"
      by (rule Put_step_facts(2) [OF Cons.prems(1)])
    then show ?thesis using True r by (auto simp: Put_child_def split: option.split)
  next
    case False
    have "\<exists>cs. Put_loop ?s (length h) key T v ! (length ?s + length key - 1)
            = new_TrieNodeWithValue T cs v"
      by (rule Cons.IH [OF _ False]) (simp add: len)
    then show ?thesis using r len by simp
  qed
qed

text \<open>
  At a proper prefix of the key the loop has installed a clone (or a plain node where there
  was none), so \<^verbatim>\<open>Get\<close> answers as before.
\<close>

lemma Put_loop_prefix_value:
  "cow_pre n0 h node \<Longrightarrow> strict_prefix p key \<Longrightarrow>
   Get_from (Put_loop h node key T v) node p U = Get_from h node p U"
proof (induction key arbitrary: h node p)
  case Nil
  then show ?case by simp
next
  case (Cons c key)
  note o = cow_pre_old [OF Cons.prems(1)]
  let ?s = "Put_step h node c key T v"
  let ?r = "Put_loop ?s (length h) key T v"
  have r: "Put_loop h node (c # key) T v = ?r" by (rule Put_loop_Cons [OF o(4)])
  have pre: "cow_pre n0 ?s (length h)" by (rule cow_pre_Put_step [OF Cons.prems(1)])
  have rn: "?r ! node = ?s ! node"
    using Put_loop_other [of node ?s "length h" key T v] o(4) Put_step_facts(1) [OF o(4), of c key T v]
    by simp
  then have cs: "children (?r ! node) = AList.update c (length h) (children (h ! node))"
    by (simp add: Put_step_facts(3) [OF o(4)])
  show ?case
  proof (cases p)
    case Nil
    then show ?thesis using r rn by (simp add: Get_from_def Put_step_facts(3) [OF o(4)])
  next
    case (Cons d q)
    then have d: "d = c" and sq: "strict_prefix q key" using Cons.prems(2) by auto
    then have key: "key \<noteq> []" by auto
    have "Get_from ?r node p U = Get_from ?r (length h) q U"
      using Cons d cs by (simp add: Get_from_def update_conv')
    also have "\<dots> = Get_from ?s (length h) q U" by (rule Cons.IH [OF pre sq])
    also have "\<dots> = (case map_of (children (h ! node)) c of
                        None \<Rightarrow> Inr None | Some b \<Rightarrow> Get_from h b q U)"
      by (rule Get_from_Put_step_child [OF Cons.prems(1) key])
    also have "\<dots> = Get_from h node p U"
      using Cons d by (simp add: Get_from_def split: option.split)
    finally show ?thesis using r by simp
  qed
qed

lemma Put_loop_frame:
  assumes "cow_pre n0 h node" and "key' \<noteq> key"
  shows "Get_from (Put_loop h node key T v) node key' U = Get_from h node key' U"
proof (cases "prefix key' key")
  case True
  then have "strict_prefix key' key" using assms(2) by (simp add: strict_prefix_def)
  then show ?thesis by (rule Put_loop_prefix_value [OF assms(1)])
next
  case False
  then have ne: "key' \<noteq> []" by auto
  have l: "Get_loop (Put_loop h node key T v) node key' = Get_loop h node key'"
    by (rule Put_loop_off_path [OF assms(1) False])
  show ?thesis
  proof (cases "Get_loop h node key'")
    case None
    then show ?thesis using l by (simp add: Get_from_def)
  next
    case (Some m)
    have "m < n0" by (rule cow_pre_walk_node [OF assms(1) ne Some])
    then have "Put_loop h node key T v ! m = h ! m" by (rule Put_loop_old [OF assms(1)])
    then show ?thesis using l Some by (simp add: Get_from_def)
  qed
qed

lemma Put_loop_roundtrip:
  assumes "node < length h" and "key \<noteq> []"
  shows "Get_from (Put_loop h node key T v) node key T = Inr (Some v)"
proof -
  have "Get_loop (Put_loop h node key T v) node key = Some (length h + length key - 1)"
    by (rule Put_loop_on_path [OF assms(1) _ assms(2)]) simp
  moreover obtain cs where
    "Put_loop h node key T v ! (length h + length key - 1) = new_TrieNodeWithValue T cs v"
    using Put_loop_terminal [OF assms] by blast
  ultimately show ?thesis by (simp add: Get_from_def)
qed


lemma node_inv_children [simp]: "node_inv (n\<lparr>children := cs\<rparr>) = node_inv n"
  by (simp add: node_inv_def)

lemma heap_wfD:
  assumes "heap_wf h" and "a < length h"
  shows "snd ` set (children (h ! a)) \<subseteq> {..<length h}" and "node_inv (h ! a)"
  using assms by (simp_all add: heap_wf_iff)

lemma addrs_bound: "A \<subseteq> insert n B \<Longrightarrow> B \<subseteq> {..<n} \<Longrightarrow> A \<subseteq> {..<Suc n}" for n :: nat
  by auto

text \<open>
  \<^verbatim>\<open>Put\<close> keeps the store well-formed.
\<close>

lemma heap_wf_Put_step:
  assumes "heap_wf h" and "node < length h"
  shows "heap_wf (Put_step h node c key T v)"
proof -
  let ?s = "Put_step h node c key T v"
  note f = Put_step_facts [OF assms(2), where c = c and key = key and T = T and v = v]
  have "snd ` set (children (?s ! a)) \<subseteq> {..<length ?s} \<and> node_inv (?s ! a)"
    if a: "a < length ?s" for a
  proof -
    consider "a = length h" | "a = node" | "a < length h" "a \<noteq> node"
      using a f(1) by fastforce
    then show ?thesis
    proof cases
      case 1
      have "snd ` set (children (Put_child h node c key T v)) \<subseteq> {..<length h}"
      proof (cases "map_of (children (h ! node)) c")
        case None
        then show ?thesis by (simp add: children_Put_child)
      next
        case (Some b)
        then have "b < length h"
          using heap_wfD(1) [OF assms] map_of_child [OF Some] by auto
        then show ?thesis using Some heap_wfD(1) [OF assms(1)] by (simp add: children_Put_child)
      qed
      moreover have "node_inv (Put_child h node c key T v)"
        by (simp add: Put_child_def split: option.split)
      ultimately show ?thesis using 1 f(1,2) by auto
    next
      case 2
      have "snd ` set (AList.update c (length h) (children (h ! node))) \<subseteq> {..<Suc (length h)}"
        by (rule addrs_bound [OF update_addrs heap_wfD(1) [OF assms]])
      then show ?thesis using 2 f(1,3) heap_wfD(2) [OF assms] by simp
    next
      case 3
      then show ?thesis using f(1,4) heap_wfD [OF assms(1), of a] by auto
    qed
  qed
  then show ?thesis by (simp add: heap_wf_iff)
qed

lemma heap_wf_Put_loop:
  "heap_wf h \<Longrightarrow> node < length h \<Longrightarrow> heap_wf (Put_loop h node key T v)"
proof (induction key arbitrary: h node)
  case Nil
  then show ?case by simp
next
  case (Cons c key)
  have "heap_wf (Put_loop (Put_step h node c key T v) (length h) key T v)"
    by (rule Cons.IH [OF heap_wf_Put_step [OF Cons.prems]])
       (simp add: Put_step_facts(1) [OF Cons.prems(2)])
  then show ?case by (simp only: Put_loop_Cons [OF Cons.prems(2)])
qed

lemma Trie_Put_eq:
  "Trie_Put h t key T v =
     (Put_loop (h @ [root_clone h t]) (length h) key T v, Trie (Some (length h)))"
  by (simp add: Trie_Put_def root_clone_def Let_def)

lemma root_clone_facts:
  assumes "trie_wf h t"
  shows "snd ` set (children (root_clone h t)) \<subseteq> {..<length h}"
    and "node_inv (root_clone h t)"
  using assms heap_wfD(1) [of h]
  by (auto simp: trie_wf_def root_clone_def split: option.splits)

lemma heap_wf_root_clone:
  assumes "trie_wf h t"
  shows "heap_wf (h @ [root_clone h t])"
proof -
  have wf: "heap_wf h" using assms by (simp add: trie_wf_def)
  have "snd ` set (children ((h @ [root_clone h t]) ! a)) \<subseteq> {..<Suc (length h)} \<and>
        node_inv ((h @ [root_clone h t]) ! a)" if "a < Suc (length h)" for a
  proof (cases "a < length h")
    case True
    then show ?thesis using heap_wfD [OF wf True] by (auto simp: nth_append)
  next
    case False
    then have "a = length h" using that by simp
    then show ?thesis using root_clone_facts [OF assms] by auto
  qed
  then show ?thesis by (simp add: heap_wf_iff)
qed

lemma cow_pre_root_clone:
  assumes "trie_wf h t"
  shows "cow_pre (length h) (h @ [root_clone h t]) (length h)"
proof -
  have wf: "heap_wf h" using assms by (simp add: trie_wf_def)
  show ?thesis
    using heap_wfD [OF wf] root_clone_facts(1) [OF assms]
    by (simp add: cow_pre_def nth_append)
qed

lemma Get_from_root_clone:
  assumes "trie_wf h t"
  shows "Get_from (h @ [root_clone h t]) (length h) p U = Trie_Get h t p U"
proof (cases "root t")
  case None
  then have "(h @ [root_clone h t]) ! length h = new_TrieNode []" by (simp add: root_clone_def)
  then show ?thesis using None by (cases p) (simp_all add: Get_from_def Trie_Get_def)
next
  case (Some r)
  have wf: "heap_wf h" and r: "r < length h" using assms Some by (simp_all add: trie_wf_def)
  have "(h @ [root_clone h t]) ! length h = h ! r"
    using Some heap_wfD(2) [OF wf r] by (simp add: root_clone_def Clone_id)
  then have "Get_from (h @ [root_clone h t]) (length h) p U = Get_from h r p U"
    using Get_from_copy(2) [of "length h" "h @ [root_clone h t]" h r "length h" U p]
      heap_wfD(1) [OF wf] r by (simp add: nth_append)
  then show ?thesis using Some by (simp add: Trie_Get_def)
qed

lemma Get_loop_root_clone:
  assumes "trie_wf h t" and "p \<noteq> []"
  shows "Get_loop (h @ [root_clone h t]) (length h) p = node_at h t p"
proof (cases "root t")
  case None
  then have "(h @ [root_clone h t]) ! length h = new_TrieNode []" by (simp add: root_clone_def)
  then show ?thesis using None assms(2) by (cases p) (simp_all add: node_at_def)
next
  case (Some r)
  have wf: "heap_wf h" and r: "r < length h" using assms Some by (simp_all add: trie_wf_def)
  have "children ((h @ [root_clone h t]) ! length h) = children (h ! r)"
    using Some by (simp add: root_clone_def)
  then have "Get_loop (h @ [root_clone h t]) (length h) p = Get_loop h r p"
    using Get_from_copy(1) [of "length h" "h @ [root_clone h t]" h r "length h" p]
      heap_wfD(1) [OF wf] r assms(2) by (simp add: nth_append)
  then show ?thesis using Some by (simp add: node_at_def)
qed

lemma trie_wf_Put:
  assumes "trie_wf h t" and "Trie_Put h t key T v = (h', t')"
  shows "trie_wf h' t'"
proof -
  have "heap_wf h'"
    using heap_wf_Put_loop [OF heap_wf_root_clone [OF assms(1)], of "length h" key T v] assms(2)
    by (simp add: Trie_Put_eq)
  moreover have "length h < length h'"
    using assms(2) by (auto simp: Trie_Put_eq Put_loop_length)
  ultimately show ?thesis using assms(2) by (auto simp: trie_wf_def Trie_Put_eq)
qed

lemma Trie_Put_frame:
  assumes "trie_wf h t" and "Trie_Put h t key T v = (h', t')" and "key' \<noteq> key"
  shows "Trie_Get h' t' key' U = Trie_Get h t key' U"
proof -
  have "Trie_Get h' t' key' U =
        Get_from (Put_loop (h @ [root_clone h t]) (length h) key T v) (length h) key' U"
    using assms(2) by (auto simp: Trie_Put_eq Trie_Get_def)
  also have "\<dots> = Get_from (h @ [root_clone h t]) (length h) key' U"
    by (rule Put_loop_frame [OF cow_pre_root_clone [OF assms(1)] assms(3)])
  also have "\<dots> = Trie_Get h t key' U" by (rule Get_from_root_clone [OF assms(1)])
  finally show ?thesis .
qed

lemma Trie_Put_roundtrip:
  assumes "Trie_Put h t key T v = (h', t')" and "key \<noteq> []"
  shows "Trie_Get h' t' key T = Inr (Some v)"
proof -
  have "Trie_Get h' t' key T =
        Get_from (Put_loop (h @ [root_clone h t]) (length h) key T v) (length h) key T"
    using assms(1) by (auto simp: Trie_Put_eq Trie_Get_def)
  also have "\<dots> = Inr (Some v)"
    by (rule Put_loop_roundtrip [OF _ assms(2)]) simp
  finally show ?thesis .
qed

text \<open>
  C5.  In a well-formed store, \<^verbatim>\<open>Put(k, v)\<close> leaves the result of \<^verbatim>\<open>Get<U>(k')\<close> as it
  was for every other key \<open>k'\<close> and every type \<open>U\<close>; and after \<^verbatim>\<open>Put("ab", v1)\<close> followed by
  \<^verbatim>\<open>Put("a", v2)\<close>, \<^verbatim>\<open>Get("ab")\<close> yields \<open>v1\<close> and \<^verbatim>\<open>Get("a")\<close> yields \<open>v2\<close>, each at
  the type it was stored with.
\<close>

theorem Put_preserves_other_keys:
  assumes "trie_wf (h :: ('t, 'v) heap) t"
  shows "(\<forall>k k' T v U. k' \<noteq> k \<longrightarrow>
            Trie_Get (fst (Trie_Put h t k T v)) (snd (Trie_Put h t k T v)) k' U = Trie_Get h t k' U) \<and>
         (\<forall>T1 v1 T2 v2.
            let (h1, t1) = Trie_Put h t ''ab'' T1 v1;
                (h2, t2) = Trie_Put h1 t1 ''a'' T2 v2
            in Trie_Get h2 t2 ''ab'' T1 = Inr (Some v1) \<and> Trie_Get h2 t2 ''a'' T2 = Inr (Some v2))"
proof (intro conjI allI impI)
  fix k k' :: string and T U :: 't and v :: 'v
  assume "k' \<noteq> k"
  then show "Trie_Get (fst (Trie_Put h t k T v)) (snd (Trie_Put h t k T v)) k' U = Trie_Get h t k' U"
    using Trie_Put_frame [OF assms, of k T v _ _ k' U] by (simp add: prod_eq_iff)
next
  fix T1 T2 :: 't and v1 v2 :: 'v
  obtain h1 t1 where p1: "Trie_Put h t ''ab'' T1 v1 = (h1, t1)" by (cases "Trie_Put h t ''ab'' T1 v1")
  obtain h2 t2 where p2: "Trie_Put h1 t1 ''a'' T2 v2 = (h2, t2)" by (cases "Trie_Put h1 t1 ''a'' T2 v2")
  have wf1: "trie_wf h1 t1" by (rule trie_wf_Put [OF assms p1])
  have "Trie_Get h1 t1 ''ab'' T1 = Inr (Some v1)" by (rule Trie_Put_roundtrip [OF p1]) simp
  then have "Trie_Get h2 t2 ''ab'' T1 = Inr (Some v1)"
    using Trie_Put_frame [OF wf1 p2, of "''ab''" T1] by simp
  moreover have "Trie_Get h2 t2 ''a'' T2 = Inr (Some v2)" by (rule Trie_Put_roundtrip [OF p2]) simp
  ultimately show "let (h1, t1) = Trie_Put h t ''ab'' T1 v1;
                (h2, t2) = Trie_Put h1 t1 ''a'' T2 v2
            in Trie_Get h2 t2 ''ab'' T1 = Inr (Some v1) \<and> Trie_Get h2 t2 ''a'' T2 = Inr (Some v2)"
    using p1 p2 by simp
qed

text \<open>The theorem for C5 on the example store: \<^verbatim>\<open>Put("a", 7)\<close> keeps \<^verbatim>\<open>"ab"\<close>.\<close>

theorem Put_preserves_other_keys_witness:
  "trie_wf (fst example_store) (snd example_store) \<and> ''ab'' \<noteq> ''a'' \<and>
   Trie_Get (fst (Trie_Put (fst example_store) (snd example_store) ''a'' ''int'' 7))
            (snd (Trie_Put (fst example_store) (snd example_store) ''a'' ''int'' 7)) ''ab'' ''int''
     = Inr (Some 1) \<and>
   (let (h1, t1) = Trie_Put (fst example_store) (snd example_store) ''ab'' ''int'' 8;
        (h2, t2) = Trie_Put h1 t1 ''a'' ''int'' 9
    in Trie_Get h2 t2 ''ab'' ''int'' = Inr (Some 8) \<and> Trie_Get h2 t2 ''a'' ''int'' = Inr (Some 9))"
proof -
  have wf: "trie_wf (fst example_store) (snd example_store)" by code_simp
  have ne: "''ab'' \<noteq> ''a''" by simp
  have old: "Trie_Get (fst example_store) (snd example_store) ''ab'' ''int'' = Inr (Some 1)"
    by code_simp
  note th = Put_preserves_other_keys [OF wf]
  have "Trie_Get (fst (Trie_Put (fst example_store) (snd example_store) ''a'' ''int'' 7))
            (snd (Trie_Put (fst example_store) (snd example_store) ''a'' ''int'' 7)) ''ab'' ''int''
     = Trie_Get (fst example_store) (snd example_store) ''ab'' ''int''"
    using th [THEN conjunct1, rule_format, of "''ab''" "''a''" "''int''" 7 "''int''"] ne by simp
  moreover have "let (h1, t1) = Trie_Put (fst example_store) (snd example_store) ''ab'' ''int'' 8;
        (h2, t2) = Trie_Put h1 t1 ''a'' ''int'' 9
    in Trie_Get h2 t2 ''ab'' ''int'' = Inr (Some 8) \<and> Trie_Get h2 t2 ''a'' ''int'' = Inr (Some 9)"
    using th [THEN conjunct2, rule_format, of "''int''" 8 "''int''" 9] .
  ultimately show ?thesis using wf ne old by simp
qed

text \<open>
  C7.  \<^verbatim>\<open>Put(k, v)\<close> on a well-formed store allocates \<open>length k + 1\<close> cells and writes
  none of the old ones.  At every path that is not a prefix of \<open>k\<close> the new trie holds the
  very node the old trie holds there (an old address, or no node in both); at every prefix
  \<open>p\<close> of \<open>k\<close> it holds the cell allocated at step \<open>length p\<close>, a new address.
\<close>

theorem Put_shares_off_path_subtrees:
  assumes "trie_wf h t" and "Trie_Put h t k T v = (h', t')"
  shows "length h' = length h + length k + 1 \<and>
         (\<forall>a<length h. h' ! a = h ! a) \<and>
         (\<forall>p. \<not> prefix p k \<longrightarrow>
              node_at h' t' p = node_at h t p \<and> (\<forall>a. node_at h' t' p = Some a \<longrightarrow> a < length h)) \<and>
         (\<forall>p. prefix p k \<longrightarrow> node_at h' t' p = Some (length h + length p))"
proof -
  let ?h1 = "h @ [root_clone h t]"
  have h': "h' = Put_loop ?h1 (length h) k T v" and t': "t' = Trie (Some (length h))"
    using assms(2) by (simp_all add: Trie_Put_eq)
  note pre = cow_pre_root_clone [OF assms(1)]
  have len: "length h' = length h + length k + 1" by (simp add: h' Put_loop_length)
  have old: "\<forall>a<length h. h' ! a = h ! a"
    using Put_loop_old [OF pre, of _ k T v] by (simp add: h' nth_append)
  have off: "node_at h' t' p = node_at h t p \<and> (\<forall>a. node_at h' t' p = Some a \<longrightarrow> a < length h)"
    if np: "\<not> prefix p k" for p
  proof -
    have ne: "p \<noteq> []" using np by auto
    have "node_at h' t' p = Get_loop ?h1 (length h) p"
      using Put_loop_off_path [OF pre np, of T v] by (simp add: node_at_def h' t')
    then show ?thesis
      using Get_loop_root_clone [OF assms(1) ne] cow_pre_walk_node [OF pre ne] by simp
  qed
  have on: "node_at h' t' p = Some (length h + length p)" if pp: "prefix p k" for p
  proof (cases "p = []")
    case True
    then show ?thesis by (simp add: node_at_def t')
  next
    case False
    have "Get_loop (Put_loop ?h1 (length h) k T v) (length h) p = Some (length ?h1 + length p - 1)"
      by (rule Put_loop_on_path [OF _ pp False]) simp
    then show ?thesis by (simp add: node_at_def h' t')
  qed
  show ?thesis using len old off on by blast
qed

text \<open>The theorem for C7 on the example store, for \<^verbatim>\<open>Put("ad", 3)\<close>.\<close>

theorem Put_shares_off_path_subtrees_witness:
  "trie_wf (fst example_store) (snd example_store) \<and>
   Trie_Put (fst example_store) (snd example_store) ''ad'' ''int'' 3 =
     (fst (Trie_Put (fst example_store) (snd example_store) ''ad'' ''int'' 3), Trie (Some 6)) \<and>
   \<not> prefix ''ab'' ''ad'' \<and> prefix ''a'' ''ad'' \<and>
   node_at (fst example_store) (snd example_store) ''ab'' = Some 2 \<and>
   node_at (fst (Trie_Put (fst example_store) (snd example_store) ''ad'' ''int'' 3)) (Trie (Some 6)) ''ab''
     = Some 2 \<and>
   node_at (fst (Trie_Put (fst example_store) (snd example_store) ''ad'' ''int'' 3)) (Trie (Some 6)) ''a''
     = Some 7"
proof -
  have wf: "trie_wf (fst example_store) (snd example_store)" by code_simp
  have put: "Trie_Put (fst example_store) (snd example_store) ''ad'' ''int'' 3 =
     (fst (Trie_Put (fst example_store) (snd example_store) ''ad'' ''int'' 3), Trie (Some 6))"
    by code_simp
  have len: "length (fst example_store) = 6" by code_simp
  have np: "\<not> prefix ''ab'' ''ad''" and pp: "prefix ''a'' ''ad''" by simp_all
  have old: "node_at (fst example_store) (snd example_store) ''ab'' = Some 2" by code_simp
  note th = Put_shares_off_path_subtrees [OF wf put]
  have "node_at (fst (Trie_Put (fst example_store) (snd example_store) ''ad'' ''int'' 3)) (Trie (Some 6)) ''ab''
     = node_at (fst example_store) (snd example_store) ''ab''"
    using th np by blast
  moreover have "node_at (fst (Trie_Put (fst example_store) (snd example_store) ''ad'' ''int'' 3)) (Trie (Some 6)) ''a''
     = Some (length (fst example_store) + length ''a'')"
    using th pp by blast
  ultimately show ?thesis using wf put np pp old len by simp
qed


section \<open>Remove: pruning and the returned root\<close>

lemma Remove_node_Nil:
  assumes "node < length h"
  shows "Remove_node h node pos [] =
     (if \<not> is_value_node (h ! node) then (h, Some node)
      else if pos \<noteq> 0 \<and> children (h ! node) = [] then (h, None)
      else ((h @ [new_TrieNode (children (h ! node))])[node := (h ! node)\<lparr>children := []\<rparr>],
            Some (length h)))"
  using assms by (simp add: Let_def nth_append)

lemma Remove_node_Cons_None:
  "map_of (children (h ! node)) c = None \<Longrightarrow> Remove_node h node pos (c # key) = (h, Some node)"
  by simp

lemma Remove_node_Cons_Some:
  assumes "map_of (children (h ! node)) c = Some child"
    and "Remove_node (h @ [Clone (h ! child)]) (length h) (Suc pos) key = (h2, nc)"
  shows "Remove_node h node pos (c # key) =
     (h2[node := (h2 ! node)\<lparr>children := Remove_children c nc (children (h2 ! node))\<rparr>],
      if pos \<noteq> 0 \<and> Remove_children c nc (children (h2 ! node)) = [] \<and> \<not> is_value_node (h2 ! node)
      then None else Some node)"
proof (cases "node < length h2")
  case True
  then show ?thesis using assms by (simp add: Let_def Remove_children_def)
next
  case False
  then show ?thesis using assms by (simp add: Let_def Remove_children_def list_update_beyond)
qed

text \<open>
  What every call of the recursive \<^verbatim>\<open>Remove\<close> does: the store only grows, no cell but
  \<open>node\<close> is written, \<open>node\<close> keeps its flag, and the result is \<open>node\<close>, a cell
  allocated by the call, or, only below the root, \<^verbatim>\<open>nullptr\<close>.
\<close>

lemma Remove_node_basic:
  "Remove_node h node pos key = (h', r) \<Longrightarrow> node < length h \<Longrightarrow>
   length h \<le> length h' \<and>
   (\<forall>x<length h. x \<noteq> node \<longrightarrow> h' ! x = h ! x) \<and>
   is_value_node (h' ! node) = is_value_node (h ! node) \<and>
   (case r of None \<Rightarrow> pos \<noteq> 0 | Some m \<Rightarrow> m = node \<or> (length h \<le> m \<and> m < length h'))"
proof (induction key arbitrary: h node pos h' r)
  case Nil
  then show ?case
    by (auto simp: Remove_node_Nil nth_append split: if_splits)
next
  case (Cons c key)
  show ?case
  proof (cases "map_of (children (h ! node)) c")
    case None
    then show ?thesis using Cons.prems by auto
  next
    case (Some child)
    obtain h2 nc where rec: "Remove_node (h @ [Clone (h ! child)]) (length h) (Suc pos) key = (h2, nc)"
      by (cases "Remove_node (h @ [Clone (h ! child)]) (length h) (Suc pos) key")
    have ih: "length (h @ [Clone (h ! child)]) \<le> length h2 \<and>
      (\<forall>x<length (h @ [Clone (h ! child)]). x \<noteq> length h \<longrightarrow> h2 ! x = (h @ [Clone (h ! child)]) ! x)"
      using Cons.IH [OF rec] by simp
    have res: "h' = h2[node := (h2 ! node)\<lparr>children := Remove_children c nc (children (h2 ! node))\<rparr>]"
      "r = (if pos \<noteq> 0 \<and> Remove_children c nc (children (h2 ! node)) = [] \<and> \<not> is_value_node (h2 ! node)
            then None else Some node)"
      using Cons.prems(1) Remove_node_Cons_Some [OF Some rec] by simp_all
    have n2: "h2 ! node = h ! node" using ih Cons.prems(2) by (simp add: nth_append)
    have l2: "node < length h2" using ih Cons.prems(2) by simp
    show ?thesis
      using ih res n2 l2 Cons.prems(2) by (auto simp: nth_append nth_list_update)
  qed
qed

lemma cow_pre_clone_child:
  assumes "cow_pre n0 h node" and "map_of (children (h ! node)) c = Some child"
  shows "cow_pre n0 (h @ [Clone (h ! child)]) (length h)"
proof -
  note o = cow_pre_old [OF assms(1)]
  have "child < n0" by (rule o(5) [OF assms(2)])
  then have "snd ` set (children (Clone (h ! child))) \<subseteq> {..<n0}" using o(1) by simp
  then show ?thesis using o(1,2,3,4) by (simp add: cow_pre_def nth_append)
qed

lemma Remove_children_addrs:
  "snd ` set (Remove_children c nc cs) \<subseteq> snd ` set cs \<union> set_option nc"
  using update_addrs [of c _ cs] delete_addrs [of c cs]
  by (cases nc) (auto simp: Remove_children_def)

lemma map_of_Remove_children:
  "map_of (Remove_children c nc cs) c = nc"
  by (cases nc) (simp_all add: Remove_children_def update_conv' delete_conv')

text \<open>
  \<open>node\<close> and the cells allocated by the call point to old cells or to cells allocated by
  the call, never to a clone made by one of the callers.
\<close>

lemma Remove_node_region:
  "Remove_node h node pos key = (h', r) \<Longrightarrow> cow_pre n0 h node \<Longrightarrow>
   m = node \<or> (length h \<le> m \<and> m < length h') \<Longrightarrow>
   snd ` set (children (h' ! m)) \<subseteq> {..<n0} \<union> {length h..<length h'}"
proof (induction key arbitrary: h node pos h' r m)
  case Nil
  note o = cow_pre_old [OF Nil.prems(2)]
  have cn: "snd ` set (children (h ! node)) \<subseteq> {..<n0}"
    using Nil.prems(2) by (simp add: cow_pre_def)
  consider (same) "h' = h"
    | (new) "h' = (h @ [new_TrieNode (children (h ! node))])[node := (h ! node)\<lparr>children := []\<rparr>]"
    using Nil.prems(1) unfolding Remove_node_Nil [OF o(4)] by (auto split: if_splits)
  then show ?case
  proof cases
    case same
    then have "m = node" using Nil.prems(3) by auto
    then show ?thesis using same cn by blast
  next
    case new
    then have "m = node \<or> m = length h" using Nil.prems(3) by auto
    then have "children (h' ! m) = [] \<or> children (h' ! m) = children (h ! node)"
      using new o(4) by (auto simp: nth_append nth_list_update)
    then show ?thesis
    proof
      assume "children (h' ! m) = []"
      then show ?thesis by simp
    next
      assume e: "children (h' ! m) = children (h ! node)"
      show ?thesis unfolding e using cn by blast
    qed
  qed
next
  case (Cons c key)
  note o = cow_pre_old [OF Cons.prems(2)]
  have cn: "snd ` set (children (h ! node)) \<subseteq> {..<n0}"
    using Cons.prems(2) by (simp add: cow_pre_def)
  show ?case
  proof (cases "map_of (children (h ! node)) c")
    case None
    then have "h' = h" using Cons.prems(1) by simp
    then show ?thesis using Cons.prems(3) cn by auto
  next
    case (Some child)
    let ?h1 = "h @ [Clone (h ! child)]"
    obtain h2 nc where rec: "Remove_node ?h1 (length h) (Suc pos) key = (h2, nc)"
      by (cases "Remove_node ?h1 (length h) (Suc pos) key")
    have pre: "cow_pre n0 ?h1 (length h)" by (rule cow_pre_clone_child [OF Cons.prems(2) Some])
    have b: "length ?h1 \<le> length h2" "\<forall>x<length ?h1. x \<noteq> length h \<longrightarrow> h2 ! x = ?h1 ! x"
      "case nc of None \<Rightarrow> True | Some b \<Rightarrow> b = length h \<or> (length ?h1 \<le> b \<and> b < length h2)"
      using Remove_node_basic [OF rec] by (auto split: option.splits)
    have res: "h' = h2[node := (h2 ! node)\<lparr>children := Remove_children c nc (children (h2 ! node))\<rparr>]"
      using Cons.prems(1) Remove_node_Cons_Some [OF Some rec] by simp
    have n2: "h2 ! node = h ! node" using b(2) o(4) by (simp add: nth_append)
    have l2: "node < length h2" using b(1) o(4) by simp
    have len: "length h' = length h2" using res by simp
    show ?thesis
    proof (cases "m = node")
      case True
      have "set_option nc \<subseteq> {length h..<length h2}" using b(1,3) by (cases nc) auto
      then have "snd ` set (Remove_children c nc (children (h ! node))) \<subseteq> {..<n0} \<union> {length h..<length h2}"
        using Remove_children_addrs [of c nc "children (h ! node)"] cn by blast
      then show ?thesis using True res n2 l2 by simp
    next
      case False
      then have m: "length h \<le> m" "m < length h2" using Cons.prems(3) len by auto
      have "snd ` set (children (h2 ! m)) \<subseteq> {..<n0} \<union> {length ?h1..<length h2}"
        by (rule Cons.IH [OF rec pre]) (use m in auto)
      moreover have "h' ! m = h2 ! m" using res False by simp
      ultimately show ?thesis using len by auto
    qed
  qed
qed

lemma clone_present:
  assumes agree: "\<forall>x<n0. h' ! x = h ! x"
    and closed: "\<forall>x<n0. snd ` set (children (h ! x)) \<subseteq> {..<n0}"
    and b: "b < n0" and inv: "node_inv (h ! b)"
    and cl: "h' ! a = Clone (h ! b)"
    and pr: "Get_loop h b key = Some e" "is_value_node (h ! e)"
  shows "\<exists>e'. Get_loop h' a key = Some e' \<and> is_value_node (h' ! e')"
proof (cases "key = []")
  case True
  then show ?thesis using pr cl inv by (simp add: Clone_id)
next
  case False
  have cs: "children (h' ! a) = children (h ! b)" using cl by simp
  have "Get_loop h' a key = Get_loop h b key"
    by (rule Get_from_copy(1) [OF agree closed b cs False])
  moreover have "e < n0 \<and> h' ! e = h ! e"
    by (rule Get_from_copy(3) [OF agree closed b cs False pr(1)])
  ultimately show ?thesis using pr by simp
qed

text \<open>
  When the key is present below \<open>node\<close>, a non-null result is not dead (unless it is the
  root), and neither is any node on the key's path below it.
\<close>

lemma Remove_node_pruned:
  "Remove_node h node pos key = (h', Some m) \<Longrightarrow> cow_pre n0 h node \<Longrightarrow>
   Get_loop h node key = Some e \<Longrightarrow> is_value_node (h ! e) \<Longrightarrow>
   (pos \<noteq> 0 \<longrightarrow> \<not> dead (h' ! m)) \<and>
   (\<forall>p x. prefix p key \<longrightarrow> p \<noteq> [] \<longrightarrow> Get_loop h' m p = Some x \<longrightarrow> \<not> dead (h' ! x))"
proof (induction key arbitrary: h node pos h' m e)
  case Nil
  note o = cow_pre_old [OF Nil.prems(2)]
  have "e = node" using Nil.prems(3) by simp
  then show ?case
    using Nil.prems(1,4) o(4)
    by (auto simp: Remove_node_Nil dead_def nth_append nth_list_update split: if_splits)
next
  case (Cons c key)
  note o = cow_pre_old [OF Cons.prems(2)]
  obtain child where Some: "map_of (children (h ! node)) c = Some child"
    and walk: "Get_loop h child key = Some e"
    using Cons.prems(3) by (auto split: option.splits)
  let ?h1 = "h @ [Clone (h ! child)]"
  obtain h2 nc where rec: "Remove_node ?h1 (length h) (Suc pos) key = (h2, nc)"
    by (cases "Remove_node ?h1 (length h) (Suc pos) key")
  have pre: "cow_pre n0 ?h1 (length h)" by (rule cow_pre_clone_child [OF Cons.prems(2) Some])
  have b: "length ?h1 \<le> length h2" "\<forall>x<length ?h1. x \<noteq> length h \<longrightarrow> h2 ! x = ?h1 ! x"
    "case nc of None \<Rightarrow> True | Some b \<Rightarrow> b = length h \<or> (length ?h1 \<le> b \<and> b < length h2)"
    using Remove_node_basic [OF rec] by (auto split: option.splits)
  let ?cs = "Remove_children c nc (children (h2 ! node))"
  have res: "h' = h2[node := (h2 ! node)\<lparr>children := ?cs\<rparr>]"
    "Some m = (if pos \<noteq> 0 \<and> ?cs = [] \<and> \<not> is_value_node (h2 ! node) then None else Some node)"
    using Cons.prems(1) Remove_node_Cons_Some [OF Some rec] by simp_all
  have l2: "node < length h2" using b(1) o(4) by simp
  have m: "m = node" and alive: "\<not> (pos \<noteq> 0 \<and> ?cs = [] \<and> \<not> is_value_node (h2 ! node))"
    using res(2) by (auto split: if_splits)
  have hn: "h' ! node = (h2 ! node)\<lparr>children := ?cs\<rparr>" using res(1) l2 by simp
  have first: "pos \<noteq> 0 \<longrightarrow> \<not> dead (h' ! m)"
    using alive m hn by (auto simp: dead_def)
  have child: "child < n0" by (rule o(5) [OF Some])
  have old1: "\<forall>x<n0. ?h1 ! x = h ! x" using o(3,4) by (simp add: nth_append)
  have "\<exists>e'. Get_loop ?h1 (length h) key = Some e' \<and> is_value_node (?h1 ! e')"
    by (rule clone_present [OF old1 o(1) child _ _ walk Cons.prems(4)]) (use o(2) child in simp_all)
  then obtain e' where pres: "Get_loop ?h1 (length h) key = Some e'" "is_value_node (?h1 ! e')"
    by blast
  have second: "\<not> dead (h' ! x)"
    if p: "prefix p (c # key)" "p \<noteq> []" and gx: "Get_loop h' m p = Some x" for p x
  proof -
    obtain q where q: "p = c # q" "prefix q key" using p by (cases p) auto
    have "map_of (children (h' ! node)) c = nc" using hn by (simp add: map_of_Remove_children)
    then obtain b where nc: "nc = Some b" and gb: "Get_loop h' b q = Some x"
      using gx m q by (auto split: option.splits)
    have rec': "Remove_node ?h1 (length h) (Suc pos) key = (h2, Some b)" using rec nc by simp
    note ih = Cons.IH [OF rec' pre pres]
    define S where "S = {..<n0} \<union> {length h..<length h2}"
    have bS: "b \<in> S" using b(1,3) nc by (auto simp: S_def)
    have nodeS: "node \<notin> S" using o(3,4) by (auto simp: S_def)
    have agree: "\<forall>a\<in>S. h' ! a = h2 ! a"
    proof
      fix a assume "a \<in> S"
      then have "a \<noteq> node" using nodeS by auto
      then show "h' ! a = h2 ! a" using res(1) by simp
    qed
    have closed: "\<forall>a\<in>S. snd ` set (children (h2 ! a)) \<subseteq> S"
    proof
      fix a assume a: "a \<in> S"
      show "snd ` set (children (h2 ! a)) \<subseteq> S"
      proof (cases "a < n0")
        case True
        then have "h2 ! a = h ! a" using b(2) o(3,4) by (simp add: nth_append)
        then show ?thesis using o(1) True by (auto simp: S_def)
      next
        case False
        then have "a = length h \<or> (length ?h1 \<le> a \<and> a < length h2)" using a by (auto simp: S_def)
        then have "snd ` set (children (h2 ! a)) \<subseteq> {..<n0} \<union> {length ?h1..<length h2}"
          by (rule Remove_node_region [OF rec pre])
        then show ?thesis by (auto simp: S_def)
      qed
    qed
    have ag: "Get_loop h' b q = Get_loop h2 b q \<and> (\<forall>y. Get_loop h2 b q = Some y \<longrightarrow> y \<in> S)"
      by (rule Get_loop_agree [OF agree closed bS])
    then have g2: "Get_loop h2 b q = Some x" and xS: "x \<in> S" using gb by auto
    have hx: "h' ! x = h2 ! x" using agree xS by simp
    show ?thesis
    proof (cases "q = []")
      case True
      then have "x = b" using g2 by simp
      then show ?thesis using ih hx by simp
    next
      case False
      then show ?thesis using ih q(2) g2 hx by simp
    qed
  qed
  show ?case using first second by blast
qed


lemma Trie_Remove_eq:
  "Trie_Remove h t key =
     (fst (Remove_node (h @ [root_clone h t]) (length h) 0 key),
      Trie (snd (Remove_node (h @ [root_clone h t]) (length h) 0 key)))"
  by (simp add: Trie_Remove_def root_clone_def Let_def split_beta)

lemma Trie_Remove_root:
  assumes "Trie_Remove h t key = (h', t')"
  shows "\<exists>m. root t' = Some m \<and> length h \<le> m \<and> m < length h'"
proof -
  let ?h1 = "h @ [root_clone h t]"
  obtain r where rm: "Remove_node ?h1 (length h) 0 key = (h', r)" and t': "t' = Trie r"
    using assms by (simp add: Trie_Remove_eq prod_eq_iff)
  have "length ?h1 \<le> length h' \<and>
        (case r of None \<Rightarrow> (0::nat) \<noteq> 0 | Some m \<Rightarrow> m = length h \<or> (length ?h1 \<le> m \<and> m < length h'))"
    using Remove_node_basic [OF rm] by simp
  then show ?thesis using t' by (cases r) auto
qed

text \<open>
  The root returned by \<^verbatim>\<open>Trie::Remove\<close> is allocated by the call, so under
  \<^verbatim>\<open>operator==\<close> the result differs from every trie of the store it started from, whether or
  not the key was present.
\<close>

lemma Trie_Remove_never_equal:
  assumes "trie_wf h t"
  shows "\<not> Trie_eq (snd (Trie_Remove h t key)) t"
proof -
  obtain m where "root (snd (Trie_Remove h t key)) = Some m" "length h \<le> m"
    using Trie_Remove_root [of h t key] by (metis prod.collapse)
  then show ?thesis using assms by (auto simp: Trie_eq_def trie_wf_def split: option.splits)
qed

lemma Trie_Remove_pruned:
  assumes wf: "trie_wf h t" and rm: "Trie_Remove h t key = (h', t')"
    and pr: "node_at h t key = Some e" "is_value_node (h ! e)"
    and p: "prefix p key" "p \<noteq> []" and x: "node_at h' t' p = Some x"
  shows "\<not> dead (h' ! x)"
proof -
  let ?h1 = "h @ [root_clone h t]"
  obtain r where root: "root t = Some r" and walk: "Get_loop h r key = Some e"
    using pr(1) by (auto simp: node_at_def split: option.splits)
  have hw: "heap_wf h" and r: "r < length h" using wf root by (simp_all add: trie_wf_def)
  obtain m where rn: "Remove_node ?h1 (length h) 0 key = (h', Some m)" and t': "t' = Trie (Some m)"
    using rm Trie_Remove_root [OF rm] by (auto simp: Trie_Remove_eq prod_eq_iff)
  have "\<exists>e'. Get_loop ?h1 (length h) key = Some e' \<and> is_value_node (?h1 ! e')"
    by (rule clone_present [of "length h" ?h1 h r "length h" key e])
       (use heap_wfD [OF hw] r root walk pr(2) in \<open>simp_all add: nth_append root_clone_def\<close>)
  then obtain e' where pres: "Get_loop ?h1 (length h) key = Some e'" "is_value_node (?h1 ! e')"
    by blast
  show ?thesis
    using Remove_node_pruned [OF rn cow_pre_root_clone [OF wf] pres] p x t'
    by (simp add: node_at_def)
qed

text \<open>
  C10.  The trie returned by \<^verbatim>\<open>Trie::Remove\<close> has a root, a cell allocated by the call
  itself, so it never equals the default-constructed \<^verbatim>\<open>Trie()\<close>.  Removing the only key
  \<^verbatim>\<open>"ab"\<close> leaves a root that is a plain node without children.
\<close>

theorem Remove_root_never_null:
  "(\<exists>m. root (snd (Trie_Remove h t key)) = Some m \<and>
        length h \<le> m \<and> m < length (fst (Trie_Remove h t key))) \<and>
   \<not> Trie_eq (snd (Trie_Remove h t key)) (Trie None) \<and>
   (let (h1, t1) = Trie_Put ([] :: (string, int) heap) (Trie None) ''ab'' ''int'' 1;
        (h2, t2) = Trie_Remove h1 t1 ''ab''
    in t2 = Trie (Some 3) \<and> h2 ! 3 = new_TrieNode [] \<and> \<not> Trie_eq t2 (Trie None))"
proof -
  have a: "\<exists>m. root (snd (Trie_Remove h t key)) = Some m \<and>
        length h \<le> m \<and> m < length (fst (Trie_Remove h t key))"
    by (rule Trie_Remove_root) simp
  then have b: "\<not> Trie_eq (snd (Trie_Remove h t key)) (Trie None)"
    by (auto simp: Trie_eq_def)
  have c: "(let (h1, t1) = Trie_Put ([] :: (string, int) heap) (Trie None) ''ab'' ''int'' 1;
        (h2, t2) = Trie_Remove h1 t1 ''ab''
    in t2 = Trie (Some 3) \<and> h2 ! 3 = new_TrieNode [] \<and> \<not> Trie_eq t2 (Trie None))"
    by code_simp
  show ?thesis using a b c by blast
qed

text \<open>Both tests for an empty children map, in terms of the edges.\<close>

lemma delete_Nil_iff: "AList.delete c cs = [] \<longleftrightarrow> list_all (\<lambda>(c', b). c' = c) cs"
  by (induction cs) auto

lemma Remove_children_Nil_iff:
  "Remove_children c nc cs = [] \<longleftrightarrow> nc = None \<and> list_all (\<lambda>(c', b). c' = c) cs"
proof (cases nc)
  case None
  then show ?thesis by (simp add: Remove_children_def delete_Nil_iff)
next
  case (Some b)
  have "AList.update c b cs \<noteq> []" by (cases cs) auto
  then show ?thesis using Some by (simp add: Remove_children_def)
qed

lemma prunable_agree:
  assumes "\<forall>a\<in>S. h' ! a = h ! a"
    and "\<forall>a\<in>S. snd ` set (children (h ! a)) \<subseteq> S"
  shows "n \<in> S \<Longrightarrow> prunable h' n key = prunable h n key"
proof (induction key arbitrary: n)
  case Nil
  then show ?case using assms(1) by simp
next
  case (Cons c key)
  have same: "h' ! n = h ! n" using assms(1) Cons.prems by simp
  show ?case
  proof (cases "map_of (children (h ! n)) c")
    case None
    then show ?thesis using same by simp
  next
    case (Some b)
    then have "b \<in> S" using assms(2) Cons.prems map_of_child by fastforce
    then show ?thesis using Cons.IH [of b] Some same by simp
  qed
qed

lemma prunable_copy:
  assumes agree: "\<forall>x<n0. h' ! x = h ! x"
    and closed: "\<forall>x<n0. snd ` set (children (h ! x)) \<subseteq> {..<n0}"
    and b: "b < n0" and cell: "h' ! a = h ! b"
  shows "prunable h' a key = prunable h b key"
proof (cases key)
  case Nil
  then show ?thesis using cell by simp
next
  case (Cons c k)
  show ?thesis
  proof (cases "map_of (children (h ! b)) c")
    case None
    then show ?thesis using Cons cell by simp
  next
    case (Some e)
    then have "e < n0" using closed b map_of_child by fastforce
    then have "prunable h' e k = prunable h e k"
      using prunable_agree [of "{..<n0}" h' h e k] agree closed by auto
    then show ?thesis using Cons cell Some by simp
  qed
qed

lemma prunable_walk:
  "prunable h n (p @ q) \<Longrightarrow> \<exists>x. Get_loop h n p = Some x \<and> prunable h x q"
proof (induction p arbitrary: n)
  case Nil
  then show ?case by simp
next
  case (Cons c p)
  then show ?case by (auto split: option.splits)
qed

lemma prunable_walk_rev:
  "Get_loop h n p = Some x \<Longrightarrow> prunable h n (p @ q) \<Longrightarrow> prunable h x q"
  using prunable_walk [of h n p q] by auto

text \<open>
  The exact account of what \<^verbatim>\<open>Remove\<close> prunes when the key is present: the recursive
  call returns \<^verbatim>\<open>nullptr\<close> below the root exactly for a prunable branch, the walk in the
  result stops at a prefix exactly when the branch from there on was prunable, and the key
  itself is absent afterwards.
\<close>

lemma Remove_node_Cons_present:
  assumes rm: "Remove_node h node pos (c # key) = (h', r)" and pre: "cow_pre n0 h node"
    and walk: "Get_loop h node (c # key) = Some e" and val: "is_value_node (h ! e)"
  obtains child h2 nc where
    "map_of (children (h ! node)) c = Some child" and "child < n0"
    and "Get_loop h child key = Some e"
    and "Remove_node (h @ [Clone (h ! child)]) (length h) (Suc pos) key = (h2, nc)"
    and "cow_pre n0 (h @ [Clone (h ! child)]) (length h)"
    and "(h @ [Clone (h ! child)]) ! length h = h ! child"
    and "\<forall>x<n0. (h @ [Clone (h ! child)]) ! x = h ! x"
    and "\<exists>e'. Get_loop (h @ [Clone (h ! child)]) (length h) key = Some e' \<and>
              is_value_node ((h @ [Clone (h ! child)]) ! e')"
    and "h' ! node = (h ! node)\<lparr>children := Remove_children c nc (children (h ! node))\<rparr>"
    and "r = (if pos \<noteq> 0 \<and> Remove_children c nc (children (h ! node)) = [] \<and>
                 \<not> is_value_node (h ! node) then None else Some node)"
    and "\<And>b q. nc = Some b \<Longrightarrow> Get_loop h' b q = Get_loop h2 b q"
    and "\<And>b q y. nc = Some b \<Longrightarrow> Get_loop h2 b q = Some y \<Longrightarrow> h' ! y = h2 ! y"
proof -
  note o = cow_pre_old [OF pre]
  obtain child where Some: "map_of (children (h ! node)) c = Some child"
    and w: "Get_loop h child key = Some e"
    using walk by (auto split: option.splits)
  let ?h1 = "h @ [Clone (h ! child)]"
  obtain h2 nc where rec: "Remove_node ?h1 (length h) (Suc pos) key = (h2, nc)"
    by (cases "Remove_node ?h1 (length h) (Suc pos) key")
  have pre1: "cow_pre n0 ?h1 (length h)" by (rule cow_pre_clone_child [OF pre Some])
  have child: "child < n0" by (rule o(5) [OF Some])
  have cell: "?h1 ! length h = h ! child" using o(2) child by (simp add: Clone_id)
  have old1: "\<forall>x<n0. ?h1 ! x = h ! x" using o(3,4) by (simp add: nth_append)
  have pres: "\<exists>e'. Get_loop ?h1 (length h) key = Some e' \<and> is_value_node (?h1 ! e')"
    by (rule clone_present [OF old1 o(1) child _ _ w val]) (use o(2) child in simp_all)
  have b: "length ?h1 \<le> length h2" "\<forall>x<length ?h1. x \<noteq> length h \<longrightarrow> h2 ! x = ?h1 ! x"
    "case nc of None \<Rightarrow> True | Some b \<Rightarrow> b = length h \<or> (length ?h1 \<le> b \<and> b < length h2)"
    using Remove_node_basic [OF rec] by (auto split: option.splits)
  have n2: "h2 ! node = h ! node" using b(2) o(4) by (simp add: nth_append)
  have l2: "node < length h2" using b(1) o(4) by simp
  have res: "h' = h2[node := (h2 ! node)\<lparr>children := Remove_children c nc (children (h2 ! node))\<rparr>]"
    "r = (if pos \<noteq> 0 \<and> Remove_children c nc (children (h2 ! node)) = [] \<and>
             \<not> is_value_node (h2 ! node) then None else Some node)"
    using rm Remove_node_Cons_Some [OF Some rec] by simp_all
  have hn: "h' ! node = (h ! node)\<lparr>children := Remove_children c nc (children (h ! node))\<rparr>"
    using res(1) l2 n2 by simp
  have r: "r = (if pos \<noteq> 0 \<and> Remove_children c nc (children (h ! node)) = [] \<and>
                 \<not> is_value_node (h ! node) then None else Some node)"
    using res(2) n2 by simp
  define S where "S = {..<n0} \<union> {length h..<length h2}"
  have nodeS: "node \<notin> S" using o(3,4) by (auto simp: S_def)
  have agree: "\<forall>a\<in>S. h' ! a = h2 ! a"
  proof
    fix a assume "a \<in> S"
    then have "a \<noteq> node" using nodeS by auto
    then show "h' ! a = h2 ! a" using res(1) by simp
  qed
  have closed: "\<forall>a\<in>S. snd ` set (children (h2 ! a)) \<subseteq> S"
  proof
    fix a assume a: "a \<in> S"
    show "snd ` set (children (h2 ! a)) \<subseteq> S"
    proof (cases "a < n0")
      case True
      then have "h2 ! a = h ! a" using b(2) o(3,4) by (simp add: nth_append)
      then show ?thesis using o(1) True by (auto simp: S_def)
    next
      case False
      then have "a = length h \<or> (length ?h1 \<le> a \<and> a < length h2)" using a by (auto simp: S_def)
      then have "snd ` set (children (h2 ! a)) \<subseteq> {..<n0} \<union> {length ?h1..<length h2}"
        by (rule Remove_node_region [OF rec pre1])
      then show ?thesis by (auto simp: S_def)
    qed
  qed
  have ag: "Get_loop h' b q = Get_loop h2 b q \<and> (\<forall>y. Get_loop h2 b q = Some y \<longrightarrow> y \<in> S)"
    if "nc = Some b" for b q
  proof -
    have "b \<in> S" using b(1,3) that by (auto simp: S_def)
    then show ?thesis by (rule Get_loop_agree [OF agree closed])
  qed
  show thesis
  proof (rule that [OF Some child w rec pre1 cell old1 pres hn r])
    show "Get_loop h' b q = Get_loop h2 b q" if "nc = Some b" for b q
      using ag [OF that] by simp
    show "h' ! y = h2 ! y" if "nc = Some b" "Get_loop h2 b q = Some y" for b q y
      using ag [OF that(1), of q] that(2) agree by simp
  qed
qed

lemma Remove_node_None_iff:
  "Remove_node h node pos key = (h', r) \<Longrightarrow> cow_pre n0 h node \<Longrightarrow>
   Get_loop h node key = Some e \<Longrightarrow> is_value_node (h ! e) \<Longrightarrow> pos \<noteq> 0 \<Longrightarrow>
   (r = None) = prunable h node key"
proof (induction key arbitrary: h node pos h' r e)
  case Nil
  note o = cow_pre_old [OF Nil.prems(2)]
  have "e = node" using Nil.prems(3) by simp
  then show ?case
    using Nil.prems(1,4,5) unfolding Remove_node_Nil [OF o(4)] by (auto split: if_splits)
next
  case (Cons c key)
  note o = cow_pre_old [OF Cons.prems(2)]
  from Cons.prems(1,2,3,4) obtain child h2 nc where
    f: "map_of (children (h ! node)) c = Some child" "child < n0"
      "Remove_node (h @ [Clone (h ! child)]) (length h) (Suc pos) key = (h2, nc)"
      "cow_pre n0 (h @ [Clone (h ! child)]) (length h)"
      "(h @ [Clone (h ! child)]) ! length h = h ! child"
      "\<forall>x<n0. (h @ [Clone (h ! child)]) ! x = h ! x"
      "\<exists>e'. Get_loop (h @ [Clone (h ! child)]) (length h) key = Some e' \<and>
              is_value_node ((h @ [Clone (h ! child)]) ! e')"
      "r = (if pos \<noteq> 0 \<and> Remove_children c nc (children (h ! node)) = [] \<and>
                 \<not> is_value_node (h ! node) then None else Some node)"
    by (rule Remove_node_Cons_present) (rule that; assumption)
  obtain e' where pres: "Get_loop (h @ [Clone (h ! child)]) (length h) key = Some e'"
    "is_value_node ((h @ [Clone (h ! child)]) ! e')"
    using f(7) by blast
  have "(nc = None) = prunable (h @ [Clone (h ! child)]) (length h) key"
    by (rule Cons.IH [OF f(3,4) pres]) simp
  also have "\<dots> = prunable h child key"
    by (rule prunable_copy [OF f(6) o(1) f(2) f(5)])
  finally have nc: "(nc = None) = prunable h child key" .
  show ?case
    using f(1,8) nc Cons.prems(5) by (auto simp: Remove_children_Nil_iff only_child_def)
qed

lemma Remove_node_walk:
  "Remove_node h node pos key = (h', Some m) \<Longrightarrow> cow_pre n0 h node \<Longrightarrow>
   Get_loop h node key = Some e \<Longrightarrow> is_value_node (h ! e) \<Longrightarrow> key = p @ q \<Longrightarrow> p \<noteq> [] \<Longrightarrow>
   (Get_loop h' m p = None) = (\<exists>x. Get_loop h node p = Some x \<and> prunable h x q)"
proof (induction key arbitrary: h node pos h' m e p)
  case Nil
  then show ?case by simp
next
  case (Cons c key)
  note o = cow_pre_old [OF Cons.prems(2)]
  let ?h1 = "h @ [Clone (h ! child)]"
  from Cons.prems(1,2,3,4) obtain child h2 nc where
    f: "map_of (children (h ! node)) c = Some child" "child < n0"
      "Remove_node (h @ [Clone (h ! child)]) (length h) (Suc pos) key = (h2, nc)"
      "cow_pre n0 (h @ [Clone (h ! child)]) (length h)"
      "(h @ [Clone (h ! child)]) ! length h = h ! child"
      "\<forall>x<n0. (h @ [Clone (h ! child)]) ! x = h ! x"
      "\<exists>e'. Get_loop (h @ [Clone (h ! child)]) (length h) key = Some e' \<and>
              is_value_node ((h @ [Clone (h ! child)]) ! e')"
      "h' ! node = (h ! node)\<lparr>children := Remove_children c nc (children (h ! node))\<rparr>"
      "Some m = (if pos \<noteq> 0 \<and> Remove_children c nc (children (h ! node)) = [] \<and>
                 \<not> is_value_node (h ! node) then None else Some node)"
      "\<And>b q. nc = Some b \<Longrightarrow> Get_loop h' b q = Get_loop h2 b q"
    by (rule Remove_node_Cons_present) (rule that; assumption)
  obtain e' where pres: "Get_loop (h @ [Clone (h ! child)]) (length h) key = Some e'"
    "is_value_node ((h @ [Clone (h ! child)]) ! e')"
    using f(7) by blast
  have m: "m = node" using f(9) by (auto split: if_splits)
  obtain p' where p: "p = c # p'" "key = p' @ q"
    using Cons.prems(5,6) by (cases p) auto
  have "(nc = None) = prunable (h @ [Clone (h ! child)]) (length h) key"
    by (rule Remove_node_None_iff [OF f(3,4) pres]) simp
  also have "\<dots> = prunable h child key"
    by (rule prunable_copy [OF f(6) o(1) f(2) f(5)])
  finally have nc: "(nc = None) = prunable h child key" .
  have lhs: "Get_loop h' m p = (case nc of None \<Rightarrow> None | Some b \<Rightarrow> Get_loop h' b p')"
    using m p(1) f(8) by (simp add: map_of_Remove_children)
  have rhs: "Get_loop h node p = Get_loop h child p'" using p(1) f(1) by simp
  show ?case
  proof (cases nc)
    case None
    then have "prunable h child (p' @ q)" using nc p(2) by simp
    then have "\<exists>x. Get_loop h child p' = Some x \<and> prunable h x q" by (rule prunable_walk)
    then show ?thesis using lhs rhs None by simp
  next
    case (Some b)
    have np: "\<not> prunable h child key" using nc Some by simp
    show ?thesis
    proof (cases "p' = []")
      case True
      then show ?thesis using lhs rhs Some np p(2) by simp
    next
      case False
      have rec': "Remove_node (h @ [Clone (h ! child)]) (length h) (Suc pos) key = (h2, Some b)"
        using f(3) Some by simp
      have cs: "children ((h @ [Clone (h ! child)]) ! length h) = children (h ! child)"
        using f(5) by simp
      have "(Get_loop h2 b p' = None) =
            (\<exists>x. Get_loop (h @ [Clone (h ! child)]) (length h) p' = Some x \<and>
                 prunable (h @ [Clone (h ! child)]) x q)"
        by (rule Cons.IH [OF rec' f(4) pres p(2) False])
      also have "Get_loop (h @ [Clone (h ! child)]) (length h) p' = Get_loop h child p'"
        by (rule Get_from_copy(1) [OF f(6) o(1) f(2) cs False])
      also have "(\<exists>x. Get_loop h child p' = Some x \<and> prunable (h @ [Clone (h ! child)]) x q) =
                 (\<exists>x. Get_loop h child p' = Some x \<and> prunable h x q)"
      proof -
        have "prunable (h @ [Clone (h ! child)]) x q = prunable h x q"
          if "Get_loop h child p' = Some x" for x
        proof -
          have "x < n0" using Get_from_copy(3) [OF f(6) o(1) f(2) cs False that] by simp
          then show ?thesis
            using prunable_agree [of "{..<n0}" "h @ [Clone (h ! child)]" h x q] f(6) o(1) by auto
        qed
        then show ?thesis by auto
      qed
      finally show ?thesis using lhs rhs Some f(10) [OF Some] by simp
    qed
  qed
qed

lemma Remove_node_removed:
  "Remove_node h node pos key = (h', Some m) \<Longrightarrow> cow_pre n0 h node \<Longrightarrow>
   Get_loop h node key = Some e \<Longrightarrow> is_value_node (h ! e) \<Longrightarrow>
   Get_from h' m key U = Inr None"
proof (induction key arbitrary: h node pos h' m e)
  case Nil
  note o = cow_pre_old [OF Nil.prems(2)]
  have "e = node" using Nil.prems(3) by simp
  then show ?case
    using Nil.prems(1,4) o(4) unfolding Remove_node_Nil [OF o(4)]
    by (auto simp: Get_from_def nth_append split: if_splits)
next
  case (Cons c key)
  from Cons.prems(1,2,3,4) obtain child h2 nc where
    f: "Remove_node (h @ [Clone (h ! child)]) (length h) (Suc pos) key = (h2, nc)"
      "cow_pre n0 (h @ [Clone (h ! child)]) (length h)"
      "\<exists>e'. Get_loop (h @ [Clone (h ! child)]) (length h) key = Some e' \<and>
              is_value_node ((h @ [Clone (h ! child)]) ! e')"
      "h' ! node = (h ! node)\<lparr>children := Remove_children c nc (children (h ! node))\<rparr>"
      "Some m = (if pos \<noteq> 0 \<and> Remove_children c nc (children (h ! node)) = [] \<and>
                 \<not> is_value_node (h ! node) then None else Some node)"
      "\<And>b q. nc = Some b \<Longrightarrow> Get_loop h' b q = Get_loop h2 b q"
      "\<And>b q y. nc = Some b \<Longrightarrow> Get_loop h2 b q = Some y \<Longrightarrow> h' ! y = h2 ! y"
    by (rule Remove_node_Cons_present) (rule that; assumption)
  obtain e' where pres: "Get_loop (h @ [Clone (h ! child)]) (length h) key = Some e'"
    "is_value_node ((h @ [Clone (h ! child)]) ! e')"
    using f(3) by blast
  have m: "m = node" using f(5) by (auto split: if_splits)
  have step: "Get_loop h' m (c # key) = (case nc of None \<Rightarrow> None | Some b \<Rightarrow> Get_loop h' b key)"
    using m f(4) by (simp add: map_of_Remove_children)
  show ?case
  proof (cases nc)
    case None
    then show ?thesis using step by (simp add: Get_from_def)
  next
    case (Some b)
    have rec': "Remove_node (h @ [Clone (h ! child)]) (length h) (Suc pos) key = (h2, Some b)"
      using f(1) Some by simp
    have ih: "Get_from h2 b key U = Inr None" by (rule Cons.IH [OF rec' f(2) pres])
    have "Get_from h' b key U = Get_from h2 b key U"
      using f(6) [OF Some, of key] f(7) [OF Some, of key]
      by (auto simp: Get_from_def split: option.splits)
    then show ?thesis using step Some ih by (simp add: Get_from_def)
  qed
qed

lemma Get_loop_snoc:
  "Get_loop h n (p @ [c]) =
     (case Get_loop h n p of None \<Rightarrow> None | Some x \<Rightarrow> map_of (children (h ! x)) c)"
  by (induction p arbitrary: n) (auto split: option.splits)

lemma Trie_Remove_present:
  assumes wf: "trie_wf h t" and rm: "Trie_Remove h t key = (h', t')"
    and pr: "node_at h t key = Some e" "is_value_node (h ! e)"
  obtains m e' where
    "Remove_node (h @ [root_clone h t]) (length h) 0 key = (h', Some m)"
    and "t' = Trie (Some m)"
    and "Get_loop (h @ [root_clone h t]) (length h) key = Some e'"
    and "is_value_node ((h @ [root_clone h t]) ! e')"
proof -
  let ?h1 = "h @ [root_clone h t]"
  obtain r where root: "root t = Some r" and walk: "Get_loop h r key = Some e"
    using pr(1) by (auto simp: node_at_def split: option.splits)
  have hw: "heap_wf h" and r: "r < length h" using wf root by (simp_all add: trie_wf_def)
  obtain m where rn: "Remove_node ?h1 (length h) 0 key = (h', Some m)" and t': "t' = Trie (Some m)"
    using rm Trie_Remove_root [OF rm] by (auto simp: Trie_Remove_eq prod_eq_iff)
  have "\<exists>e'. Get_loop ?h1 (length h) key = Some e' \<and> is_value_node (?h1 ! e')"
    by (rule clone_present [of "length h" ?h1 h r "length h" key e])
       (use heap_wfD [OF hw] r root walk pr(2) in \<open>simp_all add: nth_append root_clone_def\<close>)
  then show thesis using that rn t' by blast
qed

lemma Trie_Remove_removed:
  assumes wf: "trie_wf h t" and rm: "Trie_Remove h t key = (h', t')"
    and pr: "node_at h t key = Some e" "is_value_node (h ! e)"
  shows "Trie_Get h' t' key U = Inr None"
proof -
  from wf rm pr obtain m e' where
    f: "Remove_node (h @ [root_clone h t]) (length h) 0 key = (h', Some m)"
      "t' = Trie (Some m)"
      "Get_loop (h @ [root_clone h t]) (length h) key = Some e'"
      "is_value_node ((h @ [root_clone h t]) ! e')"
    by (rule Trie_Remove_present)
  show ?thesis
    using Remove_node_removed [OF f(1) cow_pre_root_clone [OF wf] f(3,4), of U] f(2)
    by (simp add: Trie_Get_def)
qed

lemma Trie_Remove_walk:
  assumes wf: "trie_wf h t" and rm: "Trie_Remove h t key = (h', t')"
    and pr: "node_at h t key = Some e" "is_value_node (h ! e)"
    and p: "key = p @ q" "p \<noteq> []"
  shows "(node_at h' t' p = None) = (\<exists>x. node_at h t p = Some x \<and> prunable h x q)"
proof -
  let ?h1 = "h @ [root_clone h t]"
  from wf rm pr obtain m e' where
    f: "Remove_node ?h1 (length h) 0 key = (h', Some m)"
      "t' = Trie (Some m)"
      "Get_loop ?h1 (length h) key = Some e'"
      "is_value_node (?h1 ! e')"
    by (rule Trie_Remove_present)
  note pre = cow_pre_root_clone [OF wf]
  have hw: "heap_wf h" using wf by (simp add: trie_wf_def)
  have "(node_at h' t' p = None) = (Get_loop h' m p = None)" using f(2) by (simp add: node_at_def)
  also have "\<dots> = (\<exists>x. Get_loop ?h1 (length h) p = Some x \<and> prunable ?h1 x q)"
    by (rule Remove_node_walk [OF f(1) pre f(3,4) p])
  also have "Get_loop ?h1 (length h) p = node_at h t p"
    by (rule Get_loop_root_clone [OF wf p(2)])
  also have "(\<exists>x. node_at h t p = Some x \<and> prunable ?h1 x q) =
             (\<exists>x. node_at h t p = Some x \<and> prunable h x q)"
  proof -
    have "prunable ?h1 x q = prunable h x q" if "node_at h t p = Some x" for x
    proof -
      have "Get_loop ?h1 (length h) p = Some x"
        using Get_loop_root_clone [OF wf p(2)] that by simp
      then have "x < length h" by (rule cow_pre_walk_node [OF pre p(2)])
      then show ?thesis
        using prunable_agree [of "{..<length h}" ?h1 h x q] heap_wfD(1) [OF hw]
        by (auto simp: nth_append)
    qed
    then show ?thesis by auto
  qed
  finally show ?thesis .
qed

text \<open>
  C8, as amended.  Insert \<^verbatim>\<open>"ab"\<close> into a well-formed trie and remove it again: then
  \<^verbatim>\<open>Get("ab")\<close> is absent at every type, and the result has no node at \<^verbatim>\<open>"a"\<close> exactly
  when, in the trie that held \<^verbatim>\<open>"ab"\<close>, the node at \<^verbatim>\<open>"a"\<close> had no value and no edge other
  than \<^verbatim>\<open>'b'\<close> and the node at \<^verbatim>\<open>"ab"\<close> had no children.  In general, removing a present
  key makes the key absent, drops the node at a non-empty prefix exactly when the branch from
  it to the end of the key is \<open>prunable\<close>, and leaves no node without value and without
  children on the key's path below the root.
\<close>

theorem Remove_prunes_dead_branch:
  assumes "trie_wf (h :: ('t, 'v) heap) t"
  shows "(\<forall>T v. let (h1, t1) = Trie_Put h t ''ab'' T v;
                    (h2, t2) = Trie_Remove h1 t1 ''ab''
                in (\<forall>U. Trie_Get h2 t2 ''ab'' U = Inr None) \<and>
                   (node_at h2 t2 ''a'' = None) =
                     (\<exists>x y. node_at h1 t1 ''a'' = Some x \<and> node_at h1 t1 ''ab'' = Some y \<and>
                            \<not> is_value_node (h1 ! x) \<and> only_child CHR ''b'' (h1 ! x) \<and>
                            children (h1 ! y) = [])) \<and>
         (\<forall>key e. node_at h t key = Some e \<and> is_value_node (h ! e) \<longrightarrow>
            (\<forall>U. Trie_Get (fst (Trie_Remove h t key)) (snd (Trie_Remove h t key)) key U = Inr None) \<and>
            (\<forall>p q. key = p @ q \<and> p \<noteq> [] \<longrightarrow>
               (node_at (fst (Trie_Remove h t key)) (snd (Trie_Remove h t key)) p = None) =
               (\<exists>x. node_at h t p = Some x \<and> prunable h x q)) \<and>
            (\<forall>p x. prefix p key \<and> p \<noteq> [] \<and>
               node_at (fst (Trie_Remove h t key)) (snd (Trie_Remove h t key)) p = Some x \<longrightarrow>
               is_value_node (fst (Trie_Remove h t key) ! x) \<or>
               children (fst (Trie_Remove h t key) ! x) \<noteq> []))"
proof -
  have general:
    "(\<forall>U. Trie_Get h' t' key U = Inr None) \<and>
     (\<forall>p q. key = p @ q \<and> p \<noteq> [] \<longrightarrow>
        (node_at h' t' p = None) = (\<exists>x. node_at h0 t0 p = Some x \<and> prunable h0 x q)) \<and>
     (\<forall>p x. prefix p key \<and> p \<noteq> [] \<and> node_at h' t' p = Some x \<longrightarrow>
        is_value_node (h' ! x) \<or> children (h' ! x) \<noteq> [])"
    if wf: "trie_wf h0 t0" and rm: "Trie_Remove h0 t0 key = (h', t')"
      and pr: "node_at h0 t0 key = Some e" "is_value_node (h0 ! e)"
    for h0 :: "('t, 'v) heap" and t0 key h' t' e
  proof (intro conjI allI impI)
    fix U show "Trie_Get h' t' key U = Inr None"
      by (rule Trie_Remove_removed [OF wf rm pr])
  next
    fix p q assume "key = p @ q \<and> p \<noteq> []"
    then show "(node_at h' t' p = None) = (\<exists>x. node_at h0 t0 p = Some x \<and> prunable h0 x q)"
      using Trie_Remove_walk [OF wf rm pr, of p q] by simp
  next
    fix p x assume a: "prefix p key \<and> p \<noteq> [] \<and> node_at h' t' p = Some x"
    have "\<not> dead (h' ! x)"
      by (rule Trie_Remove_pruned [OF wf rm pr, of p]) (use a in simp_all)
    then show "is_value_node (h' ! x) \<or> children (h' ! x) \<noteq> []" by (auto simp: dead_def)
  qed
  have scenario:
    "let (h1, t1) = Trie_Put h t ''ab'' T v;
         (h2, t2) = Trie_Remove h1 t1 ''ab''
     in (\<forall>U. Trie_Get h2 t2 ''ab'' U = Inr None) \<and>
        (node_at h2 t2 ''a'' = None) =
          (\<exists>x y. node_at h1 t1 ''a'' = Some x \<and> node_at h1 t1 ''ab'' = Some y \<and>
                 \<not> is_value_node (h1 ! x) \<and> only_child CHR ''b'' (h1 ! x) \<and>
                 children (h1 ! y) = [])" for T v
  proof -
    obtain h1 t1 where p1: "Trie_Put h t ''ab'' T v = (h1, t1)" by (cases "Trie_Put h t ''ab'' T v")
    obtain h2 t2 where r2: "Trie_Remove h1 t1 ''ab'' = (h2, t2)" by (cases "Trie_Remove h1 t1 ''ab''")
    have wf1: "trie_wf h1 t1" by (rule trie_wf_Put [OF assms p1])
    have "Trie_Get h1 t1 ''ab'' T = Inr (Some v)" by (rule Trie_Put_roundtrip [OF p1]) simp
    then obtain e where e: "node_at h1 t1 ''ab'' = Some e" "is_value_node (h1 ! e)"
      by (auto simp: Trie_Get_def Get_from_def Get_value_def node_at_def
          split: option.splits if_splits)
    note g = general [OF wf1 r2 e]
    have ab: "node_at h1 t1 ''ab'' =
          (case node_at h1 t1 ''a'' of None \<Rightarrow> None
           | Some x \<Rightarrow> map_of (children (h1 ! x)) CHR ''b'')"
      using Get_loop_snoc [of h1 _ "''a''" "CHR ''b''"]
      by (simp add: node_at_def split: option.splits)
    have "(node_at h2 t2 ''a'' = None) = (\<exists>x. node_at h1 t1 ''a'' = Some x \<and> prunable h1 x ''b'')"
      using g [THEN conjunct2, THEN conjunct1, rule_format, of "''a''" "''b''"] by simp
    also have "\<dots> = (\<exists>x y. node_at h1 t1 ''a'' = Some x \<and> node_at h1 t1 ''ab'' = Some y \<and>
                 \<not> is_value_node (h1 ! x) \<and> only_child CHR ''b'' (h1 ! x) \<and>
                 children (h1 ! y) = [])"
      unfolding ab by (auto split: option.splits)
    finally show ?thesis using g [THEN conjunct1] p1 r2 by simp
  qed
  have "\<forall>key e. node_at h t key = Some e \<and> is_value_node (h ! e) \<longrightarrow>
            (\<forall>U. Trie_Get (fst (Trie_Remove h t key)) (snd (Trie_Remove h t key)) key U = Inr None) \<and>
            (\<forall>p q. key = p @ q \<and> p \<noteq> [] \<longrightarrow>
               (node_at (fst (Trie_Remove h t key)) (snd (Trie_Remove h t key)) p = None) =
               (\<exists>x. node_at h t p = Some x \<and> prunable h x q)) \<and>
            (\<forall>p x. prefix p key \<and> p \<noteq> [] \<and>
               node_at (fst (Trie_Remove h t key)) (snd (Trie_Remove h t key)) p = Some x \<longrightarrow>
               is_value_node (fst (Trie_Remove h t key) ! x) \<or>
               children (fst (Trie_Remove h t key) ! x) \<noteq> [])"
  proof (intro allI impI)
    fix key e
    assume a: "node_at h t key = Some e \<and> is_value_node (h ! e)"
    show "(\<forall>U. Trie_Get (fst (Trie_Remove h t key)) (snd (Trie_Remove h t key)) key U = Inr None) \<and>
            (\<forall>p q. key = p @ q \<and> p \<noteq> [] \<longrightarrow>
               (node_at (fst (Trie_Remove h t key)) (snd (Trie_Remove h t key)) p = None) =
               (\<exists>x. node_at h t p = Some x \<and> prunable h x q)) \<and>
            (\<forall>p x. prefix p key \<and> p \<noteq> [] \<and>
               node_at (fst (Trie_Remove h t key)) (snd (Trie_Remove h t key)) p = Some x \<longrightarrow>
               is_value_node (fst (Trie_Remove h t key) ! x) \<or>
               children (fst (Trie_Remove h t key) ! x) \<noteq> [])"
      by (rule general [OF assms prod.collapse [symmetric] conjunct1 [OF a] conjunct2 [OF a]])
  qed
  moreover have "\<forall>T v. let (h1, t1) = Trie_Put h t ''ab'' T v;
                    (h2, t2) = Trie_Remove h1 t1 ''ab''
                in (\<forall>U. Trie_Get h2 t2 ''ab'' U = Inr None) \<and>
                   (node_at h2 t2 ''a'' = None) =
                     (\<exists>x y. node_at h1 t1 ''a'' = Some x \<and> node_at h1 t1 ''ab'' = Some y \<and>
                            \<not> is_value_node (h1 ! x) \<and> only_child CHR ''b'' (h1 ! x) \<and>
                            children (h1 ! y) = [])"
    using scenario by (intro allI)
  ultimately show ?thesis by (rule conjI [rotated])
qed

text \<open>
  The theorem for C8 on the example store: removing \<^verbatim>\<open>"ab"\<close> makes it absent and keeps the
  node at \<^verbatim>\<open>"a"\<close>, which still leads to \<^verbatim>\<open>"ac"\<close>; from the empty trie, the node at \<^verbatim>\<open>"a"\<close>
  is pruned.
\<close>

theorem Remove_prunes_dead_branch_witness:
  "trie_wf (fst example_store) (snd example_store) \<and>
   node_at (fst example_store) (snd example_store) ''ab'' = Some 2 \<and>
   is_value_node (fst example_store ! 2) \<and> ''ab'' = ''a'' @ ''b'' \<and> ''a'' \<noteq> [] \<and>
   Trie_Get (fst (Trie_Remove (fst example_store) (snd example_store) ''ab''))
            (snd (Trie_Remove (fst example_store) (snd example_store) ''ab'')) ''ab'' ''int'' = Inr None \<and>
   node_at (fst (Trie_Remove (fst example_store) (snd example_store) ''ab''))
           (snd (Trie_Remove (fst example_store) (snd example_store) ''ab'')) ''a'' = Some 7 \<and>
   \<not> (\<exists>x. node_at (fst example_store) (snd example_store) ''a'' = Some x \<and>
            prunable (fst example_store) x ''b'') \<and>
   (let (h1, t1) = Trie_Put ([] :: (string, int) heap) (Trie None) ''ab'' ''int'' 1;
        (h2, t2) = Trie_Remove h1 t1 ''ab''
    in node_at h2 t2 ''a'' = None \<and> Trie_Get h2 t2 ''ab'' ''int'' = Inr None)"
proof -
  have wf: "trie_wf (fst example_store) (snd example_store)" by code_simp
  have a: "node_at (fst example_store) (snd example_store) ''ab'' = Some 2" by code_simp
  have b: "is_value_node (fst example_store ! 2)" by code_simp
  have c: "''ab'' = ''a'' @ ''b''" "''a'' \<noteq> []" by simp_all
  have d: "node_at (fst (Trie_Remove (fst example_store) (snd example_store) ''ab''))
           (snd (Trie_Remove (fst example_store) (snd example_store) ''ab'')) ''a'' = Some 7"
    by code_simp
  have e: "(let (h1, t1) = Trie_Put ([] :: (string, int) heap) (Trie None) ''ab'' ''int'' 1;
        (h2, t2) = Trie_Remove h1 t1 ''ab''
    in node_at h2 t2 ''a'' = None \<and> Trie_Get h2 t2 ''ab'' ''int'' = Inr None)"
    by code_simp
  note th = Remove_prunes_dead_branch [OF wf, THEN conjunct2, THEN spec, THEN spec, THEN mp,
      OF conjI [OF a b]]
  have g: "Trie_Get (fst (Trie_Remove (fst example_store) (snd example_store) ''ab''))
            (snd (Trie_Remove (fst example_store) (snd example_store) ''ab'')) ''ab'' ''int'' = Inr None"
    by (rule th [THEN conjunct1, THEN spec])
  have "(node_at (fst (Trie_Remove (fst example_store) (snd example_store) ''ab''))
           (snd (Trie_Remove (fst example_store) (snd example_store) ''ab'')) ''a'' = None) =
        (\<exists>x. node_at (fst example_store) (snd example_store) ''a'' = Some x \<and>
            prunable (fst example_store) x ''b'')"
    by (rule th [THEN conjunct2, THEN conjunct1, THEN spec, THEN spec, THEN mp,
          OF conjI [OF c]])
  then have f: "\<not> (\<exists>x. node_at (fst example_store) (snd example_store) ''a'' = Some x \<and>
            prunable (fst example_store) x ''b'')"
    using d by simp
  show ?thesis using wf a b c(2) d e f g by simp
qed

text \<open>
  C8 as stated fails when a longer key extends \<^verbatim>\<open>"ab"\<close>: with \<^verbatim>\<open>"abc"\<close> in the trie,
  \<^verbatim>\<open>Put("ab")\<close> then \<^verbatim>\<open>Remove("ab")\<close> leaves a node at \<^verbatim>\<open>"a"\<close> that holds no value and has
  no edge other than \<^verbatim>\<open>'b'\<close>.
\<close>

theorem Remove_keeps_prefix_of_longer_key_counterexample:
  "node_at (fst abc_store) (snd abc_store) ''ab'' = Some 6 \<and>
   is_value_node (fst abc_store ! 6) \<and>
   node_at (fst abc_removed) (snd abc_removed) ''a'' = Some 8 \<and>
   \<not> is_value_node (fst abc_removed ! 8) \<and>
   children (fst abc_removed ! 8) = [(CHR ''b'', 10)]"
  by code_simp

section \<open>The versioned store: scenarios and version numbers\<close>

lemma of_nat_le_word: "of_nat n \<le> w" if "n \<le> unat (w :: 'a::len word)"
proof -
  have "unat (of_nat n :: 'a word) \<le> n"
    by (simp add: unsigned_of_nat take_bit_nat_less_eq_self)
  then show ?thesis using that by (simp add: word_le_nat_alt)
qed

text \<open>
  C6.  From a fresh store, \<^verbatim>\<open>Put("x", 1)\<close> returns version 1; then version 0 has no
  \<^verbatim>\<open>"x"\<close> and version 1 yields 1.  A second \<^verbatim>\<open>Put("x", 2)\<close> returns version 2; version 1
  still yields 1 (from the trie rooted at cell 0) and version 2 yields 2.
\<close>

theorem versioning_scenario:
  "(let s0 = (TrieStore_init :: (string, int) TrieStore);
        (s1, v1) = TrieStore_Put s0 ''x'' ''int'' 1;
        (s2, v2) = TrieStore_Put s1 ''x'' ''int'' 2
    in v1 = 1 \<and>
       TrieStore_Get s1 ''x'' ''int'' 0 = Inr None \<and>
       TrieStore_Get s1 ''x'' ''int'' 1 = Inr (Some (ValueGuard (Trie (Some 0)) 1)) \<and>
       v2 = 2 \<and>
       TrieStore_Get s2 ''x'' ''int'' 1 = Inr (Some (ValueGuard (Trie (Some 0)) 1)) \<and>
       TrieStore_Get s2 ''x'' ''int'' 2 = Inr (Some (ValueGuard (Trie (Some 2)) 2)) \<and>
       TrieStore_Get s2 ''x'' ''int'' 0 = Inr None)"
  by code_simp

text \<open>
  C1.  On a fresh store the key \<^verbatim>\<open>"a"\<close> is absent, yet \<^verbatim>\<open>Trie::Remove("a")\<close> returns a
  trie that \<^verbatim>\<open>operator==\<close> tells apart from the original (its root is the clone made on entry),
  and \<^verbatim>\<open>TrieStore::Remove("a")\<close> appends that trie and returns version 1 instead of 0.
\<close>

theorem Remove_absent_key_appends_snapshot:
  "Trie_Get ([] :: (string, int) heap) (Trie None) ''a'' ''int'' = Inr None \<and>
   \<not> Trie_eq (snd (Trie_Remove ([] :: (string, int) heap) (Trie None) ''a'')) (Trie None) \<and>
   get_version (TrieStore_init :: (string, int) TrieStore) = 0 \<and>
   TrieStore_Remove (TrieStore_init :: (string, int) TrieStore) ''a'' =
     (\<lparr>heap = [new_TrieNode []], snapshots = [Trie None, Trie (Some 0)]\<rparr>, 1)"
  by code_simp

text \<open>
  C2.  After \<^verbatim>\<open>Put("a", 1)\<close> with \<^verbatim>\<open>T = int\<close>, \<^verbatim>\<open>Get<int>("a")\<close> yields 1 and a missing key
  yields \<^verbatim>\<open>nullptr\<close>, but \<^verbatim>\<open>Get<std::string>("a")\<close> does not return \<^verbatim>\<open>nullptr\<close>: it
  dereferences the null result of the failed cast.
\<close>

theorem Get_type_mismatch_dereferences_null:
  "(let (h, t) = Trie_Put ([] :: (string, int) heap) (Trie None) ''a'' ''int'' 1
    in Trie_Get h t ''a'' ''int'' = Inr (Some 1) \<and>
       Trie_Get h t ''b'' ''std::string'' = Inr None \<and>
       Trie_Get h t ''a'' ''std::string'' = Inl NullDereference)"
  by code_simp

text \<open>
  C3.  \<^verbatim>\<open>Put\<close> with the empty key runs its loop zero times: the new trie is a plain clone
  of the root and \<^verbatim>\<open>Get\<close> of the empty key finds no value.
\<close>

theorem Put_empty_key_stores_no_value:
  "(let (h, t) = Trie_Put ([] :: (string, int) heap) (Trie None) [] ''int'' 1
    in h = [new_TrieNode []] \<and> t = Trie (Some 0) \<and> Trie_Get h t [] ''int'' = Inr None)"
  by code_simp

text \<open>
  C4, as amended.  A version argument other than the all-ones word that is at least the
  number of snapshots yields \<^verbatim>\<open>std::nullopt\<close>, whatever the key and the type.
\<close>

theorem Get_version_out_of_range:
  assumes "version \<noteq> - 1" and "length (snapshots s) \<le> unat version"
  shows "TrieStore_Get s key T version = Inr None"
  using assms by (simp add: TrieStore_Get_def of_nat_le_word)

theorem Get_version_out_of_range_witness:
  "(5 :: size_t) \<noteq> - 1 \<and>
   length (snapshots (fst (TrieStore_Put (TrieStore_init :: (string, int) TrieStore) ''x'' ''int'' 1)))
     \<le> unat (5 :: size_t) \<and>
   TrieStore_Get (fst (TrieStore_Put (TrieStore_init :: (string, int) TrieStore) ''x'' ''int'' 1))
     ''x'' ''int'' 5 = Inr None"
proof -
  have a: "(5 :: size_t) \<noteq> - 1" by simp
  have b: "length (snapshots (fst (TrieStore_Put (TrieStore_init :: (string, int) TrieStore) ''x'' ''int'' 1)))
             \<le> unat (5 :: size_t)"
    by code_simp
  show ?thesis using a b Get_version_out_of_range [OF a b] by simp
qed

text \<open>
  C4 as stated fails at the all-ones word: it is at least the number of snapshots, and
  \<^verbatim>\<open>Get\<close> takes it for the default argument and reads the latest snapshot.
\<close>

theorem Get_version_sentinel_counterexample:
  "length (snapshots (fst (TrieStore_Put (TrieStore_init :: (string, int) TrieStore) ''x'' ''int'' 1)))
     \<le> unat (- 1 :: size_t) \<and>
   TrieStore_Get (fst (TrieStore_Put (TrieStore_init :: (string, int) TrieStore) ''x'' ''int'' 1))
     ''x'' ''int'' (- 1) = Inr (Some (ValueGuard (Trie (Some 0)) 1))"
proof -
  have "length (snapshots (fst (TrieStore_Put (TrieStore_init :: (string, int) TrieStore) ''x'' ''int'' 1))) = 2"
    by code_simp
  moreover have "(2::nat) \<le> unat (- 1 :: size_t)"
    by (simp add: unsigned_minus_1_eq_mask mask_eq_exp_minus_1)
  moreover have "TrieStore_Get (fst (TrieStore_Put (TrieStore_init :: (string, int) TrieStore) ''x'' ''int'' 1))
                   ''x'' ''int'' (- 1) = Inr (Some (ValueGuard (Trie (Some 0)) 1))"
    by code_simp
  ultimately show ?thesis by simp
qed

end
